theory Spec2Isabelle
  imports Complex_Main
begin

section \<open>Bipartite centrality measures (bipartite\_centrality.py)\<close>

text \<open>
  The module defines three functions over a graph \<open>G\<close> and a container \<open>nodes\<close> holding
  one side of a bipartition: \<open>bipartite_degree_centrality\<close>,
  \<open>bipartite_betweenness_centrality\<close> and \<open>bipartite_closeness_centrality\<close>.

  Conventions of the embedding.
  \<^item> A Python exception is a value of \<open>error\<close>; a function that can raise returns
    \<open>error + result\<close>, with \<open>Inl\<close> for the exception.
  \<^item> Python floats are idealised as exact rationals (\<open>rat\<close>): rounding is not modelled,
    division by zero is (it raises \<open>ZeroDivisionError\<close>).
  \<^item> A dictionary is a map \<open>'k \<rightharpoonup> 'v\<close>; two dictionaries are equal in Python exactly
    when the maps are equal.
  \<^item> A Python set is the duplicate-free list of its elements in iteration order. The
    language leaves that order open (CPython iterates by hash slot); the model iterates
    in order of first insertion, which is one of the possible orders. The general
    theorems below use only the elements of a set, its size and the absence of
    duplicates, never the order; the evaluations whose result depends on the order
    are at inputs where CPython's order is the model's.
  \<^item> The source's variable \<open>top\<close> is written \<open>top_nodes\<close> (\<open>top\<close> is a constant of HOL).
\<close>

datatype error = ZeroDivisionError | KeyError

subsection \<open>Dictionary keys\<close>

text \<open>
  Node identifiers are hashable Python values and serve as dictionary keys. Python
  compares numeric keys by value: \<open>2 == 2.0\<close> and both hash alike, so the integer \<open>2\<close>
  and the float \<open>2.0\<close> are one key. \<open>Num\<close> holds the numeric value of such a key,
  \<open>Obj\<close> any other hashable value (a string, a tuple).
\<close>

datatype 'a pyval = Num rat | Obj 'a

definition pyset :: "'k list \<Rightarrow> 'k list" where
  \<comment> \<open>\<open>set(xs)\<close>: each element once, at the place of its first occurrence\<close>
  "pyset xs = rev (remdups (rev xs))"

definition dict :: "('k \<times> 'v) list \<Rightarrow> ('k \<rightharpoonup> 'v)" where
  \<comment> \<open>\<open>dict(pairs)\<close>: a later pair with the same key wins.\<close>
  "dict ps = map_of (rev ps)"

subsection \<open>The graph\<close>

text \<open>
  Modelled from the spec: the graph object is an external collaborator (section 3:
  an undirected, unweighted structure that enumerates its nodes and the neighbours of
  a node). It is modelled as NetworkX stores it, the adjacency dictionary \<open>G.adj\<close>: one
  entry per node, holding the node's neighbours.
\<close>

type_synonym 'k graph = "('k \<times> 'k list) list"

definition nodes_of :: "'k graph \<Rightarrow> 'k list" where
  \<comment> \<open>iterating \<open>G\<close> yields its nodes\<close>
  "nodes_of G = map fst G"

definition wf_graph :: "'k graph \<Rightarrow> bool" where
  \<comment> \<open>The invariant of an undirected graph's adjacency dictionary: keys are unique, the
      neighbours of a node are unique, and \<open>w\<close> is a neighbour of \<open>v\<close> only if \<open>w\<close> is a
      node that has \<open>v\<close> as a neighbour.\<close>
  "wf_graph G =
     (distinct (map fst G) \<and>
      list_all (\<lambda>(v, nbrs). distinct nbrs \<and>
        list_all (\<lambda>w. case map_of G w of None \<Rightarrow> False | Some ws \<Rightarrow> v \<in> set ws) nbrs) G)"

definition bipartite :: "'k graph \<Rightarrow> 'k list \<Rightarrow> bool" where
  \<comment> \<open>The bipartite precondition: every edge joins a node of \<open>top\<close> and a node outside.\<close>
  "bipartite G top_nodes =
     list_all (\<lambda>(v, nbrs). list_all (\<lambda>w. (v \<in> set top_nodes) \<noteq> (w \<in> set top_nodes)) nbrs) G"

definition valid_partition :: "'k graph \<Rightarrow> 'k list \<Rightarrow> bool" where
  \<comment> \<open>\<open>top\<close> is not empty, holds only nodes of the graph, and leaves a node for the bottom.\<close>
  "valid_partition G top_nodes =
     (top_nodes \<noteq> [] \<and> set top_nodes \<subseteq> set (nodes_of G) \<and>
      \<not> set (nodes_of G) \<subseteq> set top_nodes)"

definition degree :: "'k \<Rightarrow> 'k list \<Rightarrow> nat" where
  \<comment> \<open>the degree of \<open>n\<close> with neighbours \<open>nbrs\<close>: a self-loop counts twice\<close>
  "degree n nbrs = length nbrs + (if n \<in> set nbrs then 1 else 0)"

definition degree_iter :: "'k graph \<Rightarrow> 'k list \<Rightarrow> ('k \<times> nat) list" where
  \<comment> \<open>Modelled from the spec: \<open>Degree(graph, node)\<close>, as \<open>G.degree_iter(nbunch)\<close> yields
      it: a pair (node, degree) for every node of \<open>nbunch\<close> that is in the graph; a
      member of \<open>nbunch\<close> that is not a node is passed over.\<close>
  "degree_iter G nbunch =
     concat (map (\<lambda>n. case map_of G n of None \<Rightarrow> [] | Some nbrs \<Rightarrow> [(n, degree n nbrs)]) nbunch)"

definition deg :: "'k graph \<Rightarrow> 'k \<Rightarrow> nat" where
  \<comment> \<open>the degree of a node, for stating properties\<close>
  "deg G v = (case map_of G v of None \<Rightarrow> 0 | Some nbrs \<Rightarrow> degree v nbrs)"

definition nbrs_of :: "'k graph \<Rightarrow> 'k \<Rightarrow> 'k set" where
  \<comment> \<open>the neighbours of a node, as a set\<close>
  "nbrs_of G v = (case map_of G v of None \<Rightarrow> {} | Some nbrs \<Rightarrow> set nbrs)"

subsection \<open>bipartite\_degree\_centrality\<close>

definition bipartite_degree_centrality :: "'k graph \<Rightarrow> 'k list \<Rightarrow> error + ('k \<rightharpoonup> rat)" where
  "bipartite_degree_centrality G nodes =
     (let top_nodes = pyset nodes;
          bottom = filter (\<lambda>v. v \<notin> set top_nodes) (pyset (nodes_of G))
      in if length bottom = 0 then Inl ZeroDivisionError
         else
           let s = 1 / of_nat (length bottom);
               centrality = dict (map (\<lambda>(n, d). (n, of_nat d * s)) (degree_iter G top_nodes))
           in if length top_nodes = 0 then Inl ZeroDivisionError
              else
                let s = 1 / of_nat (length top_nodes)
                in Inr (centrality ++ dict (map (\<lambda>(n, d). (n, of_nat d * s)) (degree_iter G bottom))))"

subsection \<open>bipartite\_betweenness\_centrality\<close>

definition pyfloordiv :: "rat \<Rightarrow> rat \<Rightarrow> error + rat" where
  \<comment> \<open>\<open>x // y\<close> on floats\<close>
  "pyfloordiv x y = (if y = 0 then Inl ZeroDivisionError else Inr (of_int \<lfloor>x / y\<rfloor>))"

definition pymod :: "rat \<Rightarrow> rat \<Rightarrow> error + rat" where
  \<comment> \<open>\<open>x % y\<close> on floats: the result has the sign of \<open>y\<close>\<close>
  "pymod x y = (if y = 0 then Inl ZeroDivisionError else Inr (x - y * of_int \<lfloor>x / y\<rfloor>))"

definition betweenness_centrality :: "('k \<Rightarrow> rat) \<Rightarrow> 'k graph \<Rightarrow> ('k \<rightharpoonup> rat)" where
  \<comment> \<open>Modelled from the spec: \<open>RawBetweennessCentrality(graph)\<close>, the external
      unnormalised betweenness (\<open>nx.betweenness_centrality\<close>). The value of each node
      is the parameter \<open>raw\<close>; the dictionary has one entry per node of the graph.\<close>
  "betweenness_centrality raw G = dict (map (\<lambda>v. (v, raw v)) (nodes_of G))"

fun divide_entries :: "'k list \<Rightarrow> rat \<Rightarrow> ('k \<rightharpoonup> rat) \<Rightarrow> error + ('k \<rightharpoonup> rat)" where
  \<comment> \<open>\<open>for node in ns: betweenness[node] /= d\<close>: the entry is read first (a missing
      key raises), then divided.\<close>
  "divide_entries [] d betweenness = Inr betweenness"
| "divide_entries (node # ns) d betweenness =
     (case betweenness node of
        None \<Rightarrow> Inl KeyError
      | Some x \<Rightarrow>
          if d = 0 then Inl ZeroDivisionError
          else divide_entries ns d (betweenness(node \<mapsto> x / d)))"

definition bipartite_betweenness_centrality ::
  "('k \<Rightarrow> rat) \<Rightarrow> 'k graph \<Rightarrow> 'k list \<Rightarrow> error + ('k \<rightharpoonup> rat)" where
  "bipartite_betweenness_centrality raw G nodes =
     (let top_nodes = pyset nodes;
          bottom = filter (\<lambda>v. v \<notin> set top_nodes) (pyset (nodes_of G));
          n = of_nat (length top_nodes);
          m = of_nat (length bottom)
      in case pyfloordiv (n - 1) m of Inl e \<Rightarrow> Inl e | Inr s \<Rightarrow>
         case pymod (n - 1) m of Inl e \<Rightarrow> Inl e | Inr t \<Rightarrow>
         let bet_max_top = (((m^2) * ((s + 1)^2)) +
                            (m * (s + 1) * (2 * t - s - 1)) -
                            (t * ((2 * s) - t + 3))) / 2
         in case pyfloordiv (m - 1) n of Inl e \<Rightarrow> Inl e | Inr p \<Rightarrow>
            case pymod (m - 1) n of Inl e \<Rightarrow> Inl e | Inr r \<Rightarrow>
            let bet_max_bot = (((n^2) * ((p + 1)^2)) +
                               (n * (p + 1) * (2 * r - p - 1)) -
                               (r * ((2 * p) - r + 3))) / 2;
                betweenness = betweenness_centrality raw G
            in case divide_entries top_nodes bet_max_top betweenness of
                 Inl e \<Rightarrow> Inl e
               | Inr betweenness \<Rightarrow> divide_entries bottom bet_max_bot betweenness)"

text \<open>
  The normalisation constants as the specification words them, over the integers
  \<open>n = |Top|\<close> and \<open>m = |Bottom|\<close>, with \<open>s = floor((n-1)/m)\<close> and \<open>t = (n-1) mod m\<close>.
\<close>

definition MaxBetweenness :: "int \<Rightarrow> int \<Rightarrow> rat" where
  "MaxBetweenness n m =
     (let s = (n - 1) div m; t = (n - 1) mod m
      in of_int (m^2 * (s + 1)^2 + m * (s + 1) * (2 * t - s - 1) - t * (2 * s - t + 3)) / 2)"

definition MaxBetweennessTop :: "nat \<Rightarrow> nat \<Rightarrow> rat" where
  "MaxBetweennessTop n m = MaxBetweenness (int n) (int m)"

definition MaxBetweennessBottom :: "nat \<Rightarrow> nat \<Rightarrow> rat" where
  "MaxBetweennessBottom n m = MaxBetweenness (int m) (int n)"

subsection \<open>Single-source shortest path lengths\<close>

text \<open>
  Modelled from the spec: \<open>SingleSourceShortestPathLengths(graph, source)\<close>, an unweighted
  breadth-first search that returns the distance of every reachable node and leaves out
  the unreachable ones. The model follows \<open>nx.single_source_shortest_path_length\<close>: the
  search proceeds level by level; \<open>seen\<close> is the dictionary of the distances found (here
  its items in insertion order), \<open>nextlevel\<close> the nodes to look at on the next level.
  Reading the neighbours of a value that is not a node raises \<open>KeyError\<close>.
\<close>

fun visit ::
  "'k graph \<Rightarrow> nat \<Rightarrow> 'k list \<Rightarrow> ('k \<times> nat) list \<Rightarrow> 'k list \<Rightarrow> error + (('k \<times> nat) list \<times> 'k list)" where
  \<comment> \<open>\<open>for v in thislevel: if v not in seen: seen[v] = level; nextlevel.update(G[v])\<close>\<close>
  "visit G level [] seen nextlevel = Inr (seen, nextlevel)"
| "visit G level (v # thislevel) seen nextlevel =
     (if v \<in> fst ` set seen then visit G level thislevel seen nextlevel
      else case map_of G v of
             None \<Rightarrow> Inl KeyError
           | Some nbrs \<Rightarrow>
               visit G level thislevel (seen @ [(v, level)])
                 (nextlevel @ filter (\<lambda>w. w \<notin> set nextlevel) (remdups nbrs)))"


function levels ::
  "'k graph \<Rightarrow> ('k \<times> nat) list \<Rightarrow> nat \<Rightarrow> 'k list \<Rightarrow> error + ('k \<times> nat) list" where
  \<comment> \<open>\<open>while nextlevel: thislevel = nextlevel; nextlevel = {}; ...; level = level + 1\<close>\<close>
  "levels G seen level nextlevel =
     (if nextlevel = [] then Inr seen
      else case visit G level nextlevel seen [] of
             Inl e \<Rightarrow> Inl e
           | Inr (seen', nextlevel') \<Rightarrow> levels G seen' (Suc level) nextlevel')"
  by pat_completeness auto
termination
proof (relation "measures [\<lambda>(G, seen, level, nextlevel). card (fst ` set G - fst ` set seen),
                           \<lambda>(G, seen, level, nextlevel). length nextlevel]")
  show "wf (measures [\<lambda>(G, seen, level, nextlevel). card (fst ` set G - fst ` set seen),
                      \<lambda>(G, seen, level, nextlevel). length nextlevel])"
    by simp
next
  fix G :: "'k graph" and seen :: "('k \<times> nat) list" and level :: nat
    and nextlevel :: "'k list" and x2 seen' nextlevel'
  assume ne: "nextlevel \<noteq> []"
    and v: "visit G level nextlevel seen [] = Inr x2"
    and x2: "(seen', nextlevel') = x2"
  \<comment> \<open>One pass either leaves both dictionaries as they are, or records a node of the
      graph that was not seen before.\<close>
  have step: "visit G level vs sn nl = Inr (sn', nl') \<Longrightarrow>
      (sn' = sn \<and> nl' = nl) \<or>
      (\<exists>k. k \<in> fst ` set sn' \<and> k \<notin> fst ` set sn \<and> k \<in> fst ` set G) \<and>
      fst ` set sn \<subseteq> fst ` set sn'"
    for vs sn nl sn' nl'
  proof (induction vs arbitrary: sn nl)
    case Nil
    then show ?case by simp
  next
    case (Cons a vs)
    show ?case
    proof (cases "a \<in> fst ` set sn")
      case True
      with Cons show ?thesis by simp
    next
      case False
      with Cons.prems obtain nbrs where nb: "map_of G a = Some nbrs"
        and rec: "visit G level vs (sn @ [(a, level)])
                    (nl @ filter (\<lambda>w. w \<notin> set nl) (remdups nbrs)) = Inr (sn', nl')"
        by (auto split: option.splits)
      have aG: "a \<in> fst ` set G"
        using map_of_SomeD[OF nb] by force
      from Cons.IH[OF rec] have "insert a (fst ` set sn) \<subseteq> fst ` set sn'"
        by auto
      then have "a \<in> fst ` set sn'" and "fst ` set sn \<subseteq> fst ` set sn'"
        by simp_all
      with False aG show ?thesis
        by blast
    qed
  qed
  from v x2 have "visit G level nextlevel seen [] = Inr (seen', nextlevel')"
    by simp
  from step[OF this]
  consider "seen' = seen" "nextlevel' = []"
    | k where "k \<in> fst ` set seen'" "k \<notin> fst ` set seen" "k \<in> fst ` set G"
        "fst ` set seen \<subseteq> fst ` set seen'"
    by blast
  then show "((G, seen', Suc level, nextlevel'), (G, seen, level, nextlevel))
        \<in> measures [\<lambda>(G, seen, level, nextlevel). card (fst ` set G - fst ` set seen),
                     \<lambda>(G, seen, level, nextlevel). length nextlevel]"
  proof cases
    case 1
    with ne show ?thesis by simp
  next
    case 2
    then have "k \<in> fst ` set G - fst ` set seen" "k \<notin> fst ` set G - fst ` set seen'"
      and "fst ` set G - fst ` set seen' \<subseteq> fst ` set G - fst ` set seen"
      by auto
    then have "fst ` set G - fst ` set seen' \<subset> fst ` set G - fst ` set seen"
      by auto
    then have "card (fst ` set G - fst ` set seen') < card (fst ` set G - fst ` set seen)"
      by (intro psubset_card_mono) auto
    then show ?thesis by simp
  qed
qed

definition single_source_shortest_path_length :: "'k graph \<Rightarrow> 'k \<Rightarrow> error + ('k \<times> nat) list" where
  \<comment> \<open>\<open>seen = {}; level = 0; nextlevel = {source: 1}\<close>, then the loop\<close>
  "single_source_shortest_path_length G source = levels G [] 0 [source]"

subsection \<open>bipartite\_closeness\_centrality\<close>

text \<open>
  The source has the same loop twice, over \<open>top\<close> and over \<open>bottom\<close>; the two differ in
  the numerator only (\<open>m + 2*(n-1)\<close> and \<open>n + 2*(m-1)\<close>), which is the argument \<open>numer\<close>
  of \<open>closeness_loop\<close>. The fallback branch writes under the key \<open>n\<close>, the float
  \<open>float(len(top))\<close>, in both loops.
\<close>

fun closeness_loop ::
  "'a pyval graph \<Rightarrow> bool \<Rightarrow> rat \<Rightarrow> rat \<Rightarrow> 'a pyval list \<Rightarrow> ('a pyval \<rightharpoonup> rat) \<Rightarrow>
   error + ('a pyval \<rightharpoonup> rat)" where
  "closeness_loop G normalized numer n [] closeness = Inr closeness"
| "closeness_loop G normalized numer n (node # rest) closeness =
     (case single_source_shortest_path_length G node of
        Inl e \<Rightarrow> Inl e
      | Inr sp \<Rightarrow>
          let totsp = sum_list (map snd sp)
          in if totsp > 0 \<and> length G > 1
             then
               let c = numer / of_nat totsp;
                   c = (if normalized
                        then c * ((of_nat (length sp) - 1) / (of_nat (length G) - 1))
                        else c)
               in closeness_loop G normalized numer n rest (closeness(node \<mapsto> c))
             else closeness_loop G normalized numer n rest (closeness(Num n \<mapsto> 0)))"

definition bipartite_closeness_centrality ::
  "'a pyval graph \<Rightarrow> 'a pyval list \<Rightarrow> bool \<Rightarrow> error + ('a pyval \<rightharpoonup> rat)" where
  "bipartite_closeness_centrality G nodes normalized =
     (let closeness = Map.empty;
          top_nodes = pyset nodes;
          bottom = filter (\<lambda>v. v \<notin> set top_nodes) (pyset (nodes_of G));
          n = of_nat (length top_nodes);
          m = of_nat (length bottom)
      in case closeness_loop G normalized (m + 2 * (n - 1)) n top_nodes closeness of
           Inl e \<Rightarrow> Inl e
         | Inr closeness \<Rightarrow> closeness_loop G normalized (n + 2 * (m - 1)) n bottom closeness)"

subsection \<open>Notions for stating the properties of closeness\<close>

text \<open>The least distance a node can have from \<open>src\<close> in a bipartite graph: 0 for \<open>src\<close>
  itself, 2 for another node of the same side, 1 for a node of the other side.\<close>

definition min_dist :: "'k list \<Rightarrow> 'k \<Rightarrow> 'k \<Rightarrow> nat" where
  "min_dist T src v =
     (if v = src then 0 else if (v \<in> set T) = (src \<in> set T) then 2 else 1)"

text \<open>A graph is connected when the search from every node reaches every node
  (\<open>reachableCount = |Graph|\<close>).\<close>

definition connected :: "'k graph \<Rightarrow> bool" where
  "connected G =
     list_all (\<lambda>v. case single_source_shortest_path_length G v of
                     Inl e \<Rightarrow> False
                   | Inr sp \<Rightarrow> length sp = length G) (nodes_of G)"

text \<open>The score the loop body computes for a node, \<open>None\<close> when it takes the fallback
  branch (or the search fails).\<close>

definition closeness_of :: "'a pyval graph \<Rightarrow> bool \<Rightarrow> rat \<Rightarrow> 'a pyval \<Rightarrow> rat option" where
  "closeness_of G normalized numer node =
     (case single_source_shortest_path_length G node of
        Inl e \<Rightarrow> None
      | Inr sp \<Rightarrow>
          if 0 < sum_list (map snd sp) \<and> 1 < length G
          then Some (if normalized
                     then numer / of_nat (sum_list (map snd sp)) *
                          ((of_nat (length sp) - 1) / (of_nat (length G) - 1))
                     else numer / of_nat (sum_list (map snd sp)))
          else None)"

subsection \<open>Example inputs\<close>

text \<open>The complete bipartite graph \<open>K(2,3)\<close> with \<open>Top = {A, B}\<close> and \<open>Bottom = {X, Y, Z}\<close>.\<close>

definition K23 :: "string graph" where
  "K23 = [(''A'', [''X'', ''Y'', ''Z'']), (''B'', [''X'', ''Y'', ''Z'']),
          (''X'', [''A'', ''B'']), (''Y'', [''A'', ''B'']), (''Z'', [''A'', ''B''])]"

text \<open>The path \<open>A - X - B - Y\<close> with \<open>Top = {A, B}\<close>, and its raw betweenness values.\<close>

definition path4 :: "string graph" where
  "path4 = [(''A'', [''X'']), (''X'', [''A'', ''B'']), (''B'', [''X'', ''Y'']), (''Y'', [''B''])]"

definition raw_path4 :: "string \<Rightarrow> rat" where
  "raw_path4 v = (if v = ''X'' \<or> v = ''B'' then 2 else 0)"

text \<open>A single edge \<open>A - X\<close> with \<open>Top = {A}\<close>.\<close>

definition K11 :: "string graph" where
  "K11 = [(''A'', [''X'']), (''X'', [''A''])]"

text \<open>The same path with its nodes as dictionary keys of the closeness result.\<close>

definition ex_path :: "string pyval graph" where
  "ex_path = [(Obj ''A'', [Obj ''X'']), (Obj ''X'', [Obj ''A'', Obj ''B'']),
              (Obj ''B'', [Obj ''X'', Obj ''Y'']), (Obj ''Y'', [Obj ''B''])]"

text \<open>An edge \<open>a - x\<close> and an isolated node \<open>b\<close>, with \<open>Top = {a, b}\<close>.\<close>

definition ex_isolated :: "string pyval graph" where
  "ex_isolated = [(Obj ''a'', [Obj ''x'']), (Obj ''b'', []), (Obj ''x'', [Obj ''a''])]"

text \<open>An edge \<open>2 - 1\<close> and an isolated node \<open>10\<close>, the nodes being integers, with
  \<open>Top = {2, 10}\<close>.\<close>

definition ex_numeric :: "string pyval graph" where
  "ex_numeric = [(Num 2, [Num 1]), (Num 10, []), (Num 1, [Num 2])]"

text \<open>An edge \<open>A - X\<close> and two isolated nodes \<open>B\<close>, \<open>C\<close>, with \<open>Top = {A, B, C}\<close>.\<close>

definition ex_sparse :: "string pyval graph" where
  "ex_sparse = [(Obj ''A'', [Obj ''X'']), (Obj ''B'', []), (Obj ''C'', []), (Obj ''X'', [Obj ''A''])]"

section \<open>Properties\<close>

subsection \<open>Sets, dictionaries and degrees\<close>

lemma length_pyset: "length (pyset xs) = card (set xs)"
  by (simp add: pyset_def length_remdups_card_conv)

lemma set_pyset: "set (pyset xs) = set xs"
  by (simp add: pyset_def)

lemma distinct_bottom: "distinct (filter (\<lambda>v. v \<notin> set (pyset nodes)) (pyset (nodes_of G)))"
  by (simp add: pyset_def)

lemma set_bottom:
  "set (filter (\<lambda>v. v \<notin> set (pyset nodes)) (pyset (nodes_of G))) = set (nodes_of G) - set nodes"
  by (auto simp: pyset_def)

lemma length_bottom:
  "length (filter (\<lambda>v. v \<notin> set (pyset nodes)) (pyset (nodes_of G))) =
   card (set (nodes_of G) - set nodes)"
  using distinct_card[OF distinct_bottom, of nodes G] by (simp only: set_bottom)

lemma map_of_keyed:
  "map_of (map (\<lambda>n. (n, g n)) ys) k = (if k \<in> set ys then Some (g k) else None)"
  by (induction ys) auto

lemma dict_keyed:
  "dict (map (\<lambda>n. (n, g n)) ys) k = (if k \<in> set ys then Some (g k) else None)"
  by (simp add: dict_def rev_map map_of_keyed)

lemma degree_iter_eq:
  "degree_iter G xs = map (\<lambda>n. (n, deg G n)) (filter (\<lambda>n. n \<in> set (nodes_of G)) xs)"
proof (induction xs)
  case Nil
  show ?case by (simp add: degree_iter_def)
next
  case (Cons x xs)
  have "map_of G x = None \<longleftrightarrow> x \<notin> set (nodes_of G)"
    by (simp add: nodes_of_def map_of_eq_None_iff)
  with Cons show ?case
    by (auto simp: degree_iter_def deg_def split: option.splits)
qed

lemma degree_scores:
  "dict (map (\<lambda>(n, d). (n, f d)) (degree_iter G xs)) k =
     (if k \<in> set xs \<and> k \<in> set (nodes_of G) then Some (f (deg G k)) else None)"
proof -
  have "map (\<lambda>(n, d). (n, f d)) (degree_iter G xs) =
        map (\<lambda>n. (n, f (deg G n))) (filter (\<lambda>n. n \<in> set (nodes_of G)) xs)"
    by (simp add: degree_iter_eq comp_def)
  then show ?thesis
    using dict_keyed[of "\<lambda>n. f (deg G n)" "filter (\<lambda>n. n \<in> set (nodes_of G)) xs" k]
    by simp
qed

subsection \<open>Neighbourhoods of a well-formed bipartite graph\<close>

lemma wf_graph_entry:
  assumes "wf_graph G" "map_of G v = Some nbrs"
  shows "distinct nbrs"
    and "w \<in> set nbrs \<Longrightarrow> w \<in> set (nodes_of G) \<and> v \<in> nbrs_of G w"
proof -
  from assms(2) have mem: "(v, nbrs) \<in> set G" by (rule map_of_SomeD)
  with assms(1) show "distinct nbrs"
    by (auto simp: wf_graph_def list_all_iff)
  assume "w \<in> set nbrs"
  with assms(1) mem have "case map_of G w of None \<Rightarrow> False | Some ws \<Rightarrow> v \<in> set ws"
    by (auto simp: wf_graph_def list_all_iff)
  then obtain ws where ws: "map_of G w = Some ws" "v \<in> set ws"
    by (auto split: option.splits)
  from map_of_SomeD[OF ws(1)] have "w \<in> set (nodes_of G)"
    by (force simp: nodes_of_def)
  with ws show "w \<in> set (nodes_of G) \<and> v \<in> nbrs_of G w"
    by (simp add: nbrs_of_def)
qed

lemma bipartite_entry:
  assumes "bipartite G T" "map_of G v = Some nbrs" "w \<in> set nbrs"
  shows "(v \<in> set T) \<noteq> (w \<in> set T)"
  using assms map_of_SomeD[OF assms(2)] by (auto simp: bipartite_def list_all_iff)

lemma nbrs_of_facts:
  assumes "wf_graph G" "bipartite G T" "w \<in> nbrs_of G v"
  shows "v \<in> set (nodes_of G)" "w \<in> set (nodes_of G)" "v \<in> nbrs_of G w"
    "(v \<in> set T) \<noteq> (w \<in> set T)"
proof -
  from assms(3) obtain nbrs where nb: "map_of G v = Some nbrs" "w \<in> set nbrs"
    by (auto simp: nbrs_of_def split: option.splits)
  from map_of_SomeD[OF nb(1)] show "v \<in> set (nodes_of G)"
    by (force simp: nodes_of_def)
  from wf_graph_entry(2)[OF assms(1) nb] show "w \<in> set (nodes_of G)" "v \<in> nbrs_of G w"
    by simp_all
  from bipartite_entry[OF assms(2) nb] show "(v \<in> set T) \<noteq> (w \<in> set T)" .
qed

lemma deg_card:
  assumes "wf_graph G" "bipartite G T"
  shows "deg G v = card (nbrs_of G v)"
proof (cases "map_of G v")
  case None
  then show ?thesis by (simp add: deg_def nbrs_of_def)
next
  case (Some nbrs)
  have "v \<notin> set nbrs"
    using bipartite_entry[OF assms(2) Some, of v] by auto
  moreover have "distinct nbrs" by (rule wf_graph_entry(1)[OF assms(1) Some])
  ultimately show ?thesis
    using Some by (simp add: deg_def nbrs_of_def degree_def distinct_card)
qed

lemma finite_nbrs_of: "finite (nbrs_of G v)"
  by (simp add: nbrs_of_def split: option.splits)

lemma deg_le_other_side:
  assumes "wf_graph G" "bipartite G T"
  shows "v \<in> set T \<Longrightarrow> deg G v \<le> card (set (nodes_of G) - set T)"
    and "v \<notin> set T \<Longrightarrow> deg G v \<le> card (set T)"
proof -
  assume v: "v \<in> set T"
  have "nbrs_of G v \<subseteq> set (nodes_of G) - set T"
    using nbrs_of_facts(2,4)[OF assms] v by blast
  then have "card (nbrs_of G v) \<le> card (set (nodes_of G) - set T)"
    by (intro card_mono) auto
  then show "deg G v \<le> card (set (nodes_of G) - set T)"
    by (simp add: deg_card[OF assms])
next
  assume v: "v \<notin> set T"
  have "nbrs_of G v \<subseteq> set T"
    using nbrs_of_facts(4)[OF assms] v by blast
  then have "card (nbrs_of G v) \<le> card (set T)"
    by (intro card_mono) auto
  then show "deg G v \<le> card (set T)"
    by (simp add: deg_card[OF assms])
qed

subsection \<open>Degree centrality\<close>

text \<open>
  What \<open>bipartite_degree_centrality\<close> returns, for any graph and any container: it
  raises when \<open>Bottom\<close> or \<open>Top\<close> is empty, and otherwise gives every node of the graph
  its degree over the size of the other side.
\<close>

lemma degree_centrality_eq:
  "bipartite_degree_centrality G nodes =
     (if card (set (nodes_of G) - set nodes) = 0 \<or> card (set nodes) = 0 then Inl ZeroDivisionError
      else Inr (\<lambda>v. if v \<in> set (nodes_of G) - set nodes
                    then Some (of_nat (deg G v) / of_nat (card (set nodes)))
                    else if v \<in> set nodes \<and> v \<in> set (nodes_of G)
                    then Some (of_nat (deg G v) / of_nat (card (set (nodes_of G) - set nodes)))
                    else None))"
proof -
  let ?top = "pyset nodes"
  let ?bottom = "filter (\<lambda>v. v \<notin> set ?top) (pyset (nodes_of G))"
  let ?n = "card (set nodes)" and ?m = "card (set (nodes_of G) - set nodes)"
  have lt: "length ?top = ?n" by (rule length_pyset)
  have lb: "length ?bottom = ?m" by (rule length_bottom)
  have "dict (map (\<lambda>(n, d). (n, of_nat d * (1 / of_nat ?m :: rat))) (degree_iter G ?top))
        ++ dict (map (\<lambda>(n, d). (n, of_nat d * (1 / of_nat ?n :: rat))) (degree_iter G ?bottom))
      = (\<lambda>v. if v \<in> set (nodes_of G) - set nodes
               then Some (of_nat (deg G v) / of_nat ?n)
               else if v \<in> set nodes \<and> v \<in> set (nodes_of G)
               then Some (of_nat (deg G v) / of_nat ?m)
               else None)"
    by (rule ext) (auto simp: map_add_def degree_scores set_pyset split: option.splits)
  then show ?thesis
    unfolding bipartite_degree_centrality_def Let_def lt lb by simp
qed

text \<open>The result depends on the set of \<open>nodes\<close> only.\<close>

lemma degree_centrality_set:
  "set nodes = set nodes' \<Longrightarrow>
   bipartite_degree_centrality G nodes = bipartite_degree_centrality G nodes'"
  by (simp only: degree_centrality_eq)

text \<open>
  C4. For a valid partition with \<open>n = |Top|\<close> and \<open>m = |Bottom|\<close>, the function returns a
  mapping whose keys are exactly the nodes of the graph; a node of \<open>Top\<close> has the score
  \<open>degree / m\<close> and a node of \<open>Bottom\<close> the score \<open>degree / n\<close>.
\<close>

theorem degree_centrality_scores:
  assumes "valid_partition G nodes"
  shows "\<exists>c. bipartite_degree_centrality G nodes = Inr c \<and>
           dom c = set (nodes_of G) \<and>
           (\<forall>v\<in>set nodes.
              c v = Some (of_nat (deg G v) / of_nat (card (set (nodes_of G) - set nodes)))) \<and>
           (\<forall>v\<in>set (nodes_of G) - set nodes.
              c v = Some (of_nat (deg G v) / of_nat (card (set nodes))))"
proof -
  from assms have ne: "nodes \<noteq> []" and sub: "set nodes \<subseteq> set (nodes_of G)"
    and nb: "\<not> set (nodes_of G) \<subseteq> set nodes"
    by (auto simp: valid_partition_def)
  have n0: "card (set nodes) \<noteq> 0" using ne by (simp add: card_eq_0_iff)
  have m0: "card (set (nodes_of G) - set nodes) \<noteq> 0" using nb by (auto simp: card_eq_0_iff)
  show ?thesis
    unfolding degree_centrality_eq using n0 m0 sub
    by (auto simp: dom_def split: if_splits)
qed

theorem degree_centrality_scores_K23:
  "valid_partition K23 [''A'', ''B''] \<and>
   (\<exists>c. bipartite_degree_centrality K23 [''A'', ''B''] = Inr c \<and>
        c ''A'' = Some 1 \<and> c ''B'' = Some 1 \<and>
        c ''X'' = Some 1 \<and> c ''Y'' = Some 1 \<and> c ''Z'' = Some 1)"
proof -
  have h: "valid_partition K23 [''A'', ''B'']"
    by (simp add: valid_partition_def K23_def nodes_of_def)
  have m: "card (set (nodes_of K23) - set [''A'', ''B'']) = 3"
    by (simp add: K23_def nodes_of_def)
  from degree_centrality_scores[OF h] obtain c
    where c: "bipartite_degree_centrality K23 [''A'', ''B''] = Inr c"
      and t: "\<forall>v\<in>set [''A'', ''B''].
                c v = Some (of_nat (deg K23 v) / of_nat (card (set (nodes_of K23) - set [''A'', ''B''])))"
      and b: "\<forall>v\<in>set (nodes_of K23) - set [''A'', ''B''].
                c v = Some (of_nat (deg K23 v) / of_nat (card (set [''A'', ''B''])))"
    by blast
  from t have "c ''A'' = Some 1" "c ''B'' = Some 1"
    unfolding m by (simp_all add: deg_def degree_def K23_def)
  moreover from b have "c ''X'' = Some 1" "c ''Y'' = Some 1" "c ''Z'' = Some 1"
    by (simp_all add: deg_def degree_def K23_def nodes_of_def)
  ultimately show ?thesis using h c by blast
qed

lemma valid_partition_cards:
  assumes "valid_partition G nodes"
  shows "0 < card (set nodes)" "0 < card (set (nodes_of G) - set nodes)"
    "set nodes \<subseteq> set (nodes_of G)"
  using assms by (auto simp: valid_partition_def card_gt_0_iff)

lemma sum_div_mult:
  fixes k :: rat
  assumes "k \<noteq> 0"
  shows "(\<Sum>v\<in>A. of_nat (f v) / k) * k = of_nat (\<Sum>v\<in>A. f v)"
  using assms by (simp add: sum_divide_distrib[symmetric])

text \<open>
  C8. On a well-formed graph that satisfies the bipartite precondition, with a valid
  partition, every node's degree centrality lies between 0 and 1: a node's neighbours
  are distinct nodes of the other side, so its degree is at most the size of that side.
\<close>

theorem degree_centrality_bounds:
  assumes "wf_graph G" "bipartite G nodes" "valid_partition G nodes"
  shows "\<exists>c. bipartite_degree_centrality G nodes = Inr c \<and>
           (\<forall>v\<in>set (nodes_of G). \<exists>x. c v = Some x \<and> 0 \<le> x \<and> x \<le> 1)"
proof -
  note vp = valid_partition_cards[OF assms(3)]
  note le = deg_le_other_side[OF assms(1,2)]
  have top: "of_nat (deg G v) / of_nat (card (set (nodes_of G) - set nodes)) \<le> (1::rat)"
    if "v \<in> set nodes" for v
    using le(1)[OF that] vp(2) by (simp add: divide_le_eq_1)
  have bot: "of_nat (deg G v) / of_nat (card (set nodes)) \<le> (1::rat)"
    if "v \<notin> set nodes" for v
    using le(2)[OF that] vp(1) by (simp add: divide_le_eq_1)
  show ?thesis
    unfolding degree_centrality_eq using vp top bot
    by (auto split: if_splits)
qed

theorem degree_centrality_bounds_K23:
  "wf_graph K23 \<and> bipartite K23 [''A'', ''B''] \<and> valid_partition K23 [''A'', ''B''] \<and>
   (\<exists>c x y. bipartite_degree_centrality K23 [''A'', ''B''] = Inr c \<and>
            c ''A'' = Some x \<and> 0 \<le> x \<and> x \<le> 1 \<and> c ''Z'' = Some y \<and> 0 \<le> y \<and> y \<le> 1)"
proof -
  have w: "wf_graph K23"
    by (simp add: wf_graph_def K23_def)
  have b: "bipartite K23 [''A'', ''B'']"
    by (simp add: bipartite_def K23_def)
  have v: "valid_partition K23 [''A'', ''B'']"
    by (simp add: valid_partition_def K23_def nodes_of_def)
  have m: "''A'' \<in> set (nodes_of K23)" "''Z'' \<in> set (nodes_of K23)"
    by (simp_all add: K23_def nodes_of_def)
  from degree_centrality_bounds[OF w b v] m show ?thesis
    using w b v by blast
qed

text \<open>
  C9. On a well-formed graph that satisfies the bipartite precondition, the degrees of
  the \<open>Top\<close> nodes and the degrees of the \<open>Bottom\<close> nodes have the same sum (each edge is
  counted once from each side); hence the \<open>Top\<close> scores times \<open>|Bottom|\<close> and the
  \<open>Bottom\<close> scores times \<open>|Top|\<close> have the same sum.
\<close>

theorem degree_sum_sides:
  assumes "wf_graph G" "bipartite G nodes" "valid_partition G nodes"
  shows "(\<Sum>v\<in>set nodes. deg G v) = (\<Sum>v\<in>set (nodes_of G) - set nodes. deg G v) \<and>
         (\<exists>c. bipartite_degree_centrality G nodes = Inr c \<and>
              (\<Sum>v\<in>set nodes. the (c v)) * of_nat (card (set (nodes_of G) - set nodes)) =
              (\<Sum>v\<in>set (nodes_of G) - set nodes. the (c v)) * of_nat (card (set nodes)))"
proof -
  let ?T = "set nodes" and ?B = "set (nodes_of G) - set nodes"
  note vp = valid_partition_cards[OF assms(3)]
  note nf = nbrs_of_facts[OF assms(1,2)]
  have swap: "(\<lambda>(v, w). (w, v)) ` (SIGMA v:?T. nbrs_of G v) = (SIGMA w:?B. nbrs_of G w)"
  proof (intro equalityI subsetI)
    fix e assume "e \<in> (\<lambda>(v, w). (w, v)) ` (SIGMA v:?T. nbrs_of G v)"
    then obtain v w where e: "e = (w, v)" and v: "v \<in> ?T" and w: "w \<in> nbrs_of G v"
      by auto
    from nf(2,3,4)[OF w] v show "e \<in> (SIGMA w:?B. nbrs_of G w)"
      unfolding e by auto
  next
    fix e assume "e \<in> (SIGMA w:?B. nbrs_of G w)"
    then obtain w v where e: "e = (w, v)" and w: "w \<in> ?B" and v: "v \<in> nbrs_of G w"
      by auto
    from nf(3,4)[OF v] w have "v \<in> ?T" "w \<in> nbrs_of G v" by auto
    then have "(v, w) \<in> (SIGMA v:?T. nbrs_of G v)" by simp
    then show "e \<in> (\<lambda>(v, w). (w, v)) ` (SIGMA v:?T. nbrs_of G v)"
      unfolding e by force
  qed
  have inj: "inj_on (\<lambda>(v, w). (w, v)) (SIGMA v:?T. nbrs_of G v)"
    by (auto simp: inj_on_def)
  have "(\<Sum>v\<in>?T. deg G v) = (\<Sum>v\<in>?T. card (nbrs_of G v))"
    by (simp add: deg_card[OF assms(1,2)])
  also have "\<dots> = card (SIGMA v:?T. nbrs_of G v)"
    by (simp add: finite_nbrs_of)
  also have "\<dots> = card ((\<lambda>(v, w). (w, v)) ` (SIGMA v:?T. nbrs_of G v))"
    by (rule card_image[OF inj, symmetric])
  also have "\<dots> = card (SIGMA w:?B. nbrs_of G w)"
    by (simp only: swap)
  also have "\<dots> = (\<Sum>w\<in>?B. card (nbrs_of G w))"
    by (simp add: finite_nbrs_of)
  also have "\<dots> = (\<Sum>v\<in>?B. deg G v)"
    by (simp add: deg_card[OF assms(1,2)])
  finally have degs: "(\<Sum>v\<in>?T. deg G v) = (\<Sum>v\<in>?B. deg G v)" .
  define c :: "'a \<Rightarrow> rat option" where "c = (\<lambda>v. if v \<in> ?B
                    then Some (of_nat (deg G v) / of_nat (card ?T))
                    else if v \<in> ?T \<and> v \<in> set (nodes_of G)
                    then Some (of_nat (deg G v) / of_nat (card ?B))
                    else None)"
  have "\<not> (card ?B = 0 \<or> card ?T = 0)"
    using vp(1,2) by arith
  then have res: "bipartite_degree_centrality G nodes = Inr c"
    unfolding degree_centrality_eq c_def by (simp only: if_False)
  have kB: "(of_nat (card ?B) :: rat) \<noteq> 0"
    using vp(2) by (simp only: of_nat_eq_0_iff)
  have kT: "(of_nat (card ?T) :: rat) \<noteq> 0"
    using vp(1) by (simp only: of_nat_eq_0_iff)
  have eqT: "(\<Sum>v\<in>?T. the (c v)) = (\<Sum>v\<in>?T. of_nat (deg G v) / of_nat (card ?B))"
    using vp(3) by (intro sum.cong) (auto simp: c_def)
  have t: "(\<Sum>v\<in>?T. the (c v)) * of_nat (card ?B) = of_nat (\<Sum>v\<in>?T. deg G v)"
    unfolding eqT by (rule sum_div_mult[OF kB])
  have eqB: "(\<Sum>v\<in>?B. the (c v)) = (\<Sum>v\<in>?B. of_nat (deg G v) / of_nat (card ?T))"
    by (intro sum.cong) (auto simp: c_def)
  have b: "(\<Sum>v\<in>?B. the (c v)) * of_nat (card ?T) = of_nat (\<Sum>v\<in>?B. deg G v)"
    unfolding eqB by (rule sum_div_mult[OF kT])
  show ?thesis using degs res t b by simp
qed

theorem degree_sum_sides_path4:
  "wf_graph path4 \<and> bipartite path4 [''A'', ''B''] \<and> valid_partition path4 [''A'', ''B''] \<and>
   (\<Sum>v\<in>set [''A'', ''B'']. deg path4 v) = 3 \<and>
   (\<Sum>v\<in>set (nodes_of path4) - set [''A'', ''B'']. deg path4 v) = 3"
proof -
  have w: "wf_graph path4"
    by (simp add: wf_graph_def path4_def)
  have b: "bipartite path4 [''A'', ''B'']"
    by (simp add: bipartite_def path4_def)
  have v: "valid_partition path4 [''A'', ''B'']"
    by (simp add: valid_partition_def path4_def nodes_of_def)
  have t: "(\<Sum>v\<in>set [''A'', ''B'']. deg path4 v) = 3"
    by (simp add: deg_def degree_def path4_def)
  from degree_sum_sides[OF w b v] t show ?thesis
    using w b v by simp
qed

subsection \<open>Betweenness centrality\<close>

text \<open>
  The float operations \<open>//\<close> and \<open>%\<close> on the sizes agree with integer division and
  remainder, so the two constants the function computes are the specification's
  \<open>MaxBetweennessTop\<close> and \<open>MaxBetweennessBottom\<close> (\<open>betweenness_unfold\<close>).
\<close>

lemma pyfloordiv_of_int:
  "b \<noteq> 0 \<Longrightarrow> pyfloordiv (of_int a) (of_int b) = Inr (of_int (a div b))"
  by (simp add: pyfloordiv_def floor_divide_of_int_eq)

lemma pymod_of_int:
  "b \<noteq> 0 \<Longrightarrow> pymod (of_int a) (of_int b) = Inr (of_int (a mod b))"
proof -
  have "(of_int a :: rat) - of_int b * of_int (a div b) = of_int (a - b * (a div b))"
    by simp
  also have "a - b * (a div b) = a mod b"
    by (simp add: minus_mult_div_eq_mod)
  finally show "b \<noteq> 0 \<Longrightarrow> pymod (of_int a) (of_int b) = Inr (of_int (a mod b))"
    by (simp add: pymod_def floor_divide_of_int_eq)
qed

lemma divide_entries_ok:
  "distinct ns \<Longrightarrow> set ns \<subseteq> dom b \<Longrightarrow> d \<noteq> 0 \<Longrightarrow>
   divide_entries ns d b = Inr (\<lambda>v. if v \<in> set ns then Some (the (b v) / d) else b v)"
proof (induction ns arbitrary: b)
  case Nil
  then show ?case by simp
next
  case (Cons a ns)
  from Cons.prems obtain x where x: "b a = Some x" by auto
  have "divide_entries (a # ns) d b = divide_entries ns d (b(a \<mapsto> x / d))"
    using x Cons.prems(3) by simp
  also have "\<dots> =
        Inr (\<lambda>v. if v \<in> set ns then Some (the ((b(a \<mapsto> x / d)) v) / d) else (b(a \<mapsto> x / d)) v)"
    using Cons.prems by (intro Cons.IH) auto
  also have "(\<lambda>v. if v \<in> set ns then Some (the ((b(a \<mapsto> x / d)) v) / d) else (b(a \<mapsto> x / d)) v)
           = (\<lambda>v. if v \<in> set (a # ns) then Some (the (b v) / d) else b v)"
    using Cons.prems x by (auto intro!: ext)
  finally show ?case .
qed

lemma divide_entries_zero:
  "ns \<noteq> [] \<Longrightarrow> hd ns \<in> dom b \<Longrightarrow> divide_entries ns 0 b = Inl ZeroDivisionError"
  by (cases ns) auto

lemma divide_entries_missing:
  "\<not> set ns \<subseteq> dom b \<Longrightarrow> isl (divide_entries ns d b)"
proof (induction ns arbitrary: b)
  case Nil
  then show ?case by simp
next
  case (Cons a ns)
  show ?case
  proof (cases "b a")
    case None
    then show ?thesis by simp
  next
    case (Some x)
    with Cons.prems have "\<not> set ns \<subseteq> dom (b(a \<mapsto> x / d))" by auto
    then have rec: "isl (divide_entries ns d (b(a \<mapsto> x / d)))" by (rule Cons.IH)
    show ?thesis
    proof (cases "d = 0")
      case True
      with Some show ?thesis by simp
    next
      case False
      with Some have "divide_entries (a # ns) d b = divide_entries ns d (b(a \<mapsto> x / d))"
        by simp
      with rec show ?thesis by (simp only:)
    qed
  qed
qed

lemma dom_betweenness_centrality: "dom (betweenness_centrality raw G) = set (nodes_of G)"
  by (auto simp: betweenness_centrality_def dict_keyed dom_def)

lemma betweenness_centrality_apply:
  "betweenness_centrality raw G v = (if v \<in> set (nodes_of G) then Some (raw v) else None)"
  by (simp add: betweenness_centrality_def dict_keyed)

lemma bet_max_eq:
  fixes s t m :: int
  shows "(((of_int m)^2 * ((of_int s + 1)^2)) + (of_int m * (of_int s + 1) * (2 * of_int t - of_int s - 1))
          - (of_int t * ((2 * of_int s) - of_int t + 3))) / (2::rat)
        = of_int (m^2 * (s + 1)^2 + m * (s + 1) * (2 * t - s - 1) - t * (2 * s - t + 3)) / 2"
  by simp

lemma betweenness_unfold:
  assumes n: "0 < card (set nodes)" and m: "0 < card (set (nodes_of G) - set nodes)"
  shows "bipartite_betweenness_centrality raw G nodes =
     (case divide_entries (pyset nodes)
             (MaxBetweennessTop (card (set nodes)) (card (set (nodes_of G) - set nodes)))
             (betweenness_centrality raw G) of
        Inl e \<Rightarrow> Inl e
      | Inr b \<Rightarrow> divide_entries (filter (\<lambda>v. v \<notin> set (pyset nodes)) (pyset (nodes_of G)))
                  (MaxBetweennessBottom (card (set nodes)) (card (set (nodes_of G) - set nodes))) b)"
proof -
  define n' where "n' = int (card (set nodes))"
  define m' where "m' = int (card (set (nodes_of G) - set nodes))"
  have n0: "n' \<noteq> 0" and m0: "m' \<noteq> 0" using n m by (simp_all only: n'_def m'_def of_nat_eq_0_iff)
  have nn: "(of_nat (card (set nodes)) :: rat) = of_int n'"
    and mm: "(of_nat (card (set (nodes_of G) - set nodes)) :: rat) = of_int m'"
    by (simp_all add: n'_def m'_def)
  have n1: "(of_int n' - 1 :: rat) = of_int (n' - 1)" and m1: "(of_int m' - 1 :: rat) = of_int (m' - 1)"
    by simp_all
  show ?thesis
    unfolding bipartite_betweenness_centrality_def Let_def length_pyset length_bottom nn mm n1 m1
      pyfloordiv_of_int[OF m0] pymod_of_int[OF m0] pyfloordiv_of_int[OF n0] pymod_of_int[OF n0]
      sum.case bet_max_eq MaxBetweennessTop_def MaxBetweennessBottom_def MaxBetweenness_def
      n'_def[symmetric] m'_def[symmetric]
    by (rule refl)
qed

lemma betweenness_empty_side:
  assumes "card (set nodes) = 0 \<or> card (set (nodes_of G) - set nodes) = 0"
  shows "bipartite_betweenness_centrality raw G nodes = Inl ZeroDivisionError"
proof (cases "card (set (nodes_of G) - set nodes) = 0")
  case True
  then show ?thesis
    unfolding bipartite_betweenness_centrality_def Let_def length_pyset length_bottom
    by (simp add: pyfloordiv_def)
next
  case False
  with assms have "card (set nodes) = 0" by simp
  with False show ?thesis
    unfolding bipartite_betweenness_centrality_def Let_def length_pyset length_bottom
    by (simp add: pyfloordiv_def pymod_def)
qed

lemma betweenness_outside_fails:
  assumes ns: "\<not> set nodes \<subseteq> set (nodes_of G)"
  shows "isl (bipartite_betweenness_centrality raw G nodes)"
proof (cases "card (set nodes) = 0 \<or> card (set (nodes_of G) - set nodes) = 0")
  case True
  then show ?thesis by (simp only: betweenness_empty_side) simp
next
  case False
  then have n: "0 < card (set nodes)" by arith
  from False have m: "0 < card (set (nodes_of G) - set nodes)" by arith
  have "\<not> set (pyset nodes) \<subseteq> dom (betweenness_centrality raw G)"
    using ns by (simp only: set_pyset dom_betweenness_centrality not_False_eq_True)
  then have "isl (divide_entries (pyset nodes)
      (MaxBetweennessTop (card (set nodes)) (card (set (nodes_of G) - set nodes)))
      (betweenness_centrality raw G))"
    by (rule divide_entries_missing)
  then show ?thesis
    unfolding betweenness_unfold[OF n m] by (auto simp: isl_def)
qed

lemma betweenness_eq:
  assumes sub: "set nodes \<subseteq> set (nodes_of G)"
  shows "bipartite_betweenness_centrality raw G nodes =
     (if card (set nodes) = 0 \<or> card (set (nodes_of G) - set nodes) = 0 \<or>
         MaxBetweennessTop (card (set nodes)) (card (set (nodes_of G) - set nodes)) = 0 \<or>
         MaxBetweennessBottom (card (set nodes)) (card (set (nodes_of G) - set nodes)) = 0
      then Inl ZeroDivisionError
      else Inr (\<lambda>v. if v \<in> set (nodes_of G) - set nodes
                    then Some (raw v / MaxBetweennessBottom (card (set nodes))
                                         (card (set (nodes_of G) - set nodes)))
                    else if v \<in> set nodes
                    then Some (raw v / MaxBetweennessTop (card (set nodes))
                                         (card (set (nodes_of G) - set nodes)))
                    else None))"
proof (cases "card (set nodes) = 0 \<or> card (set (nodes_of G) - set nodes) = 0")
  case True
  then have c: "card (set nodes) = 0 \<or> card (set (nodes_of G) - set nodes) = 0 \<or>
         MaxBetweennessTop (card (set nodes)) (card (set (nodes_of G) - set nodes)) = 0 \<or>
         MaxBetweennessBottom (card (set nodes)) (card (set (nodes_of G) - set nodes)) = 0"
    by blast
  show ?thesis
    unfolding betweenness_empty_side[OF True] if_P[OF c] by (rule refl)
next
  case False
  let ?top = "pyset nodes"
  let ?bottom = "filter (\<lambda>v. v \<notin> set (pyset nodes)) (pyset (nodes_of G))"
  let ?mt = "MaxBetweennessTop (card (set nodes)) (card (set (nodes_of G) - set nodes))"
  let ?mb = "MaxBetweennessBottom (card (set nodes)) (card (set (nodes_of G) - set nodes))"
  let ?b0 = "betweenness_centrality raw G"
  from False have n: "0 < card (set nodes)"
    by arith
  from False have m: "0 < card (set (nodes_of G) - set nodes)"
    by arith
  from n have "length ?top \<noteq> 0" unfolding length_pyset by arith
  then have tne: "?top \<noteq> []" by auto
  from m have "length ?bottom \<noteq> 0" unfolding length_bottom by arith
  then have bne: "?bottom \<noteq> []" by auto
  note unf = betweenness_unfold[OF n m, of raw]
  show ?thesis
  proof (cases "?mt = 0")
    case True
    have "hd ?top \<in> dom ?b0"
      using sub hd_in_set[OF tne] by (auto simp: dom_betweenness_centrality set_pyset)
    from divide_entries_zero[OF tne this] True show ?thesis
      by (simp add: unf)
  next
    case mt: False
    define b1 where "b1 = (\<lambda>v. if v \<in> set ?top then Some (the (?b0 v) / ?mt) else ?b0 v)"
    have d1: "divide_entries ?top ?mt ?b0 = Inr b1"
      unfolding b1_def using sub mt
      by (intro divide_entries_ok) (simp_all add: pyset_def dom_betweenness_centrality)
    have dom1: "dom b1 = set (nodes_of G)"
      using sub by (auto simp: b1_def set_pyset betweenness_centrality_apply dom_def split: if_splits)
    have sb: "set ?bottom \<subseteq> dom b1"
      unfolding set_bottom dom1 by blast
    show ?thesis
    proof (cases "?mb = 0")
      case True
      have "hd ?bottom \<in> dom b1"
        using hd_in_set[OF bne] sb by blast
      from divide_entries_zero[OF bne this] True show ?thesis
        by (simp add: unf d1)
    next
      case mb: False
      define b2 where "b2 = (\<lambda>v. if v \<in> set ?bottom then Some (the (b1 v) / ?mb) else b1 v)"
      have d2: "divide_entries ?bottom ?mb b1 = Inr b2"
        unfolding b2_def by (rule divide_entries_ok[OF distinct_bottom sb mb])
      have "b2 = (\<lambda>v. if v \<in> set (nodes_of G) - set nodes then Some (raw v / ?mb)
                      else if v \<in> set nodes then Some (raw v / ?mt) else None)"
        using sub by (intro ext) (auto simp: b2_def b1_def set_bottom set_pyset betweenness_centrality_apply)
      with False mt mb show ?thesis
        by (simp add: unf d1 d2)
    qed
  qed
qed

text \<open>The result depends on the set of \<open>nodes\<close> only, when these are nodes of the graph.\<close>

lemma betweenness_centrality_set:
  assumes "set nodes = set nodes'" "set nodes \<subseteq> set (nodes_of G)"
  shows "bipartite_betweenness_centrality raw G nodes = bipartite_betweenness_centrality raw G nodes'"
proof -
  from assms have "set nodes' \<subseteq> set (nodes_of G)" by simp
  from betweenness_eq[OF assms(2)] betweenness_eq[OF this] show ?thesis
    by (simp only: assms(1))
qed

text \<open>
  C6. For a valid partition whose two constants are not zero, the function returns a
  mapping over exactly the nodes of the graph, in which a node of \<open>Top\<close> has its raw
  betweenness divided by \<open>MaxBetweennessTop\<close> and a node of \<open>Bottom\<close> its raw betweenness
  divided by \<open>MaxBetweennessBottom\<close>, the constants being those of the formula with
  \<open>s = floor((n-1)/m)\<close>, \<open>t = (n-1) mod m\<close> (and \<open>p\<close>, \<open>r\<close> symmetrically).
\<close>

theorem betweenness_scores:
  assumes vp: "valid_partition G nodes"
    and top0: "MaxBetweennessTop (card (set nodes)) (card (set (nodes_of G) - set nodes)) \<noteq> 0"
    and bot0: "MaxBetweennessBottom (card (set nodes)) (card (set (nodes_of G) - set nodes)) \<noteq> 0"
  shows "\<exists>b. bipartite_betweenness_centrality raw G nodes = Inr b \<and>
           dom b = set (nodes_of G) \<and>
           (\<forall>v\<in>set nodes. b v = Some (raw v /
              MaxBetweennessTop (card (set nodes)) (card (set (nodes_of G) - set nodes)))) \<and>
           (\<forall>v\<in>set (nodes_of G) - set nodes. b v = Some (raw v /
              MaxBetweennessBottom (card (set nodes)) (card (set (nodes_of G) - set nodes))))"
proof -
  note c = valid_partition_cards[OF vp]
  from c(1,2) have "\<not> (card (set nodes) = 0 \<or> card (set (nodes_of G) - set nodes) = 0)"
    by arith
  with top0 bot0 have
    "\<not> (card (set nodes) = 0 \<or> card (set (nodes_of G) - set nodes) = 0 \<or>
        MaxBetweennessTop (card (set nodes)) (card (set (nodes_of G) - set nodes)) = 0 \<or>
        MaxBetweennessBottom (card (set nodes)) (card (set (nodes_of G) - set nodes)) = 0)"
    by blast
  then show ?thesis
    unfolding betweenness_eq[OF c(3)] using c(3)
    by (simp only: if_False) (auto simp: dom_def split: if_splits)
qed

theorem betweenness_scores_path4:
  "valid_partition path4 [''A'', ''B''] \<and>
   MaxBetweennessTop 2 2 = 2 \<and> MaxBetweennessBottom 2 2 = 2 \<and>
   (\<exists>b. bipartite_betweenness_centrality raw_path4 path4 [''A'', ''B''] = Inr b \<and>
        b ''A'' = Some 0 \<and> b ''B'' = Some 1 \<and> b ''X'' = Some 1 \<and> b ''Y'' = Some 0)"
proof -
  have v: "valid_partition path4 [''A'', ''B'']"
    by (simp add: valid_partition_def path4_def nodes_of_def)
  have c: "card (set [''A'', ''B'']) = 2" "card (set (nodes_of path4) - set [''A'', ''B'']) = 2"
    by (simp_all add: path4_def nodes_of_def)
  have m: "MaxBetweennessTop 2 2 = 2" "MaxBetweennessBottom 2 2 = 2"
    by (simp_all add: MaxBetweennessTop_def MaxBetweennessBottom_def MaxBetweenness_def)
  have bs: "set (nodes_of path4) - set [''A'', ''B''] = {''X'', ''Y''}"
    by (auto simp: path4_def nodes_of_def)
  have t0: "MaxBetweennessTop (card (set [''A'', ''B''])) (card (set (nodes_of path4) - set [''A'', ''B''])) \<noteq> 0"
    and b0: "MaxBetweennessBottom (card (set [''A'', ''B''])) (card (set (nodes_of path4) - set [''A'', ''B''])) \<noteq> 0"
    unfolding c m by simp_all
  from betweenness_scores[OF v t0 b0, of raw_path4, unfolded c, unfolded m bs] obtain b
    where r: "bipartite_betweenness_centrality raw_path4 path4 [''A'', ''B''] = Inr b"
      and t: "\<forall>v\<in>set [''A'', ''B'']. b v = Some (raw_path4 v / 2)"
      and u: "\<forall>v\<in>{''X'', ''Y''}. b v = Some (raw_path4 v / 2)"
    by blast
  from t have "b ''A'' = Some 0" "b ''B'' = Some 1"
    by (simp_all add: raw_path4_def)
  moreover from u have "b ''X'' = Some 1" "b ''Y'' = Some 0"
    by (simp_all add: raw_path4_def)
  ultimately show ?thesis using v m r by blast
qed

text \<open>
  C7. Whenever one of the two constants is zero the function fails: it returns no
  mapping, and for a \<open>Top\<close> made of nodes of the graph the exception is the division by
  zero (\<open>ZeroDivisionError\<close>, which is what the code raises for the degenerate
  normalisation). With \<open>|Top| = 1\<close> and \<open>|Bottom| = 1\<close> the \<open>Top\<close> constant is zero.
\<close>

theorem betweenness_degenerate:
  assumes "MaxBetweennessTop (card (set nodes)) (card (set (nodes_of G) - set nodes)) = 0 \<or>
           MaxBetweennessBottom (card (set nodes)) (card (set (nodes_of G) - set nodes)) = 0"
  shows "isl (bipartite_betweenness_centrality raw G nodes) \<and>
         (set nodes \<subseteq> set (nodes_of G) \<longrightarrow>
            bipartite_betweenness_centrality raw G nodes = Inl ZeroDivisionError)"
proof (cases "set nodes \<subseteq> set (nodes_of G)")
  case True
  from assms have "bipartite_betweenness_centrality raw G nodes = Inl ZeroDivisionError"
    unfolding betweenness_eq[OF True] by (simp only: simp_thms if_True)
  then show ?thesis by simp
next
  case False
  then show ?thesis by (simp only: betweenness_outside_fails simp_thms)
qed

theorem betweenness_degenerate_K11:
  "MaxBetweennessTop 1 1 = 0 \<and>
   bipartite_betweenness_centrality raw_path4 K11 [''A''] = Inl ZeroDivisionError"
proof -
  have c: "card (set [''A'']) = 1" "card (set (nodes_of K11) - set [''A'']) = 1"
    by (simp_all add: K11_def nodes_of_def)
  have m: "MaxBetweennessTop 1 1 = 0"
    by (simp add: MaxBetweennessTop_def MaxBetweenness_def)
  have s: "set [''A''] \<subseteq> set (nodes_of K11)"
    by (simp add: K11_def nodes_of_def)
  from betweenness_degenerate[of "[''A'']" K11 raw_path4] show ?thesis
    unfolding c using m s by blast
qed


text \<open>
  A side with a single node always makes a constant zero: the \<open>Top\<close> constant when
  \<open>|Bottom| = 1\<close>, the \<open>Bottom\<close> constant when \<open>|Top| = 1\<close>.
\<close>

lemma MaxBetweenness_single_side:
  "MaxBetweennessTop n 1 = 0" "MaxBetweennessBottom 1 m = 0"
  by (simp_all add: MaxBetweennessTop_def MaxBetweennessBottom_def MaxBetweenness_def
        power2_eq_square algebra_simps)

subsection \<open>Evaluation on concrete graphs\<close>

text \<open>Unfolding the closeness function on a concrete graph.\<close>

lemmas closeness_eval =
  bipartite_closeness_centrality_def pyset_def nodes_of_def single_source_shortest_path_length_def

subsection \<open>Breadth-first search in a bipartite graph\<close>

text \<open>
  One pass over a level appends, at the current level, the nodes of the level that were
  not yet seen; the next level holds neighbours of those nodes only.
\<close>

lemma map_of_in_nodes: "map_of G v = Some nbrs \<Longrightarrow> v \<in> set (nodes_of G)"
  using map_of_SomeD[of G v nbrs] by (force simp: nodes_of_def)

lemma visit_shape:
  "visit G level vs seen nl = Inr (seen', nl') \<Longrightarrow>
   \<exists>new. seen' = seen @ map (\<lambda>v. (v, level)) new \<and> set new \<subseteq> set vs \<and>
         set new \<inter> fst ` set seen = {} \<and> distinct new \<and> set new \<subseteq> set (nodes_of G) \<and>
         set nl' \<subseteq> set nl \<union> (\<Union>v\<in>set new. nbrs_of G v)"
proof (induction vs arbitrary: seen nl)
  case Nil
  then have "seen' = seen @ map (\<lambda>v. (v, level)) []" "set nl' \<subseteq> set nl" by simp_all
  then show ?case by (intro exI[of _ "[]"]) simp
next
  case (Cons a vs)
  show ?case
  proof (cases "a \<in> fst ` set seen")
    case True
    with Cons.prems have "visit G level vs seen nl = Inr (seen', nl')" by simp
    from Cons.IH[OF this] obtain new where
      "seen' = seen @ map (\<lambda>v. (v, level)) new" "set new \<subseteq> set vs"
      "set new \<inter> fst ` set seen = {}" "distinct new" "set new \<subseteq> set (nodes_of G)"
      "set nl' \<subseteq> set nl \<union> (\<Union>v\<in>set new. nbrs_of G v)"
      by blast
    then show ?thesis by (intro exI[of _ new]) auto
  next
    case False
    with Cons.prems obtain nbrs where nb: "map_of G a = Some nbrs"
      and rec: "visit G level vs (seen @ [(a, level)])
                  (nl @ filter (\<lambda>w. w \<notin> set nl) (remdups nbrs)) = Inr (seen', nl')"
      by (auto split: option.splits)
    from Cons.IH[OF rec] obtain new where n:
      "seen' = (seen @ [(a, level)]) @ map (\<lambda>v. (v, level)) new" "set new \<subseteq> set vs"
      "set new \<inter> fst ` set (seen @ [(a, level)]) = {}" "distinct new"
      "set new \<subseteq> set (nodes_of G)"
      "set nl' \<subseteq> set (nl @ filter (\<lambda>w. w \<notin> set nl) (remdups nbrs)) \<union> (\<Union>v\<in>set new. nbrs_of G v)"
      by blast
    have na: "nbrs_of G a = set nbrs" using nb by (simp add: nbrs_of_def)
    have 1: "seen' = seen @ map (\<lambda>v. (v, level)) (a # new)" using n(1) by simp
    have 2: "set (a # new) \<subseteq> set (a # vs)" using n(2) by auto
    have 3: "set (a # new) \<inter> fst ` set seen = {}" using n(3) False by auto
    have 4: "distinct (a # new)" using n(3,4) by auto
    have 5: "set (a # new) \<subseteq> set (nodes_of G)" using n(5) map_of_in_nodes[OF nb] by simp
    have 6: "set nl' \<subseteq> set nl \<union> (\<Union>v\<in>set (a # new). nbrs_of G v)"
      using n(6) na by auto
    from 1 2 3 4 5 6 show ?thesis by blast
  qed
qed

lemma bipartite_nbrs:
  "bipartite G T \<Longrightarrow> w \<in> nbrs_of G v \<Longrightarrow> (v \<in> set T) \<noteq> (w \<in> set T)"
proof -
  assume b: "bipartite G T" and "w \<in> nbrs_of G v"
  then obtain nbrs where "map_of G v = Some nbrs" "w \<in> set nbrs"
    by (auto simp: nbrs_of_def split: option.splits)
  with b show ?thesis by (rule bipartite_entry)
qed

lemma levels_inv:
  "levels G seen level nl = Inr sp \<Longrightarrow> bipartite G T \<Longrightarrow>
    (\<forall>(v, k)\<in>set seen. min_dist T src v \<le> k) \<Longrightarrow>
    (\<forall>w\<in>set nl. even level \<longleftrightarrow> ((w \<in> set T) = (src \<in> set T))) \<Longrightarrow>
    (level = 0 \<longrightarrow> set nl \<subseteq> {src}) \<Longrightarrow>
    distinct (map fst seen) \<Longrightarrow> fst ` set seen \<subseteq> set (nodes_of G) \<Longrightarrow>
    (\<forall>(v, k)\<in>set sp. min_dist T src v \<le> k) \<and> distinct (map fst sp) \<and>
    fst ` set sp \<subseteq> set (nodes_of G)"
proof (induction G seen level nl rule: levels.induct)
  case (1 G seen level nl)
  show ?case
  proof (cases "nl = []")
    case True
    with "1.prems"(1) have "sp = seen" by (simp add: levels.simps[of G seen level nl])
    with "1.prems"(3,6,7) show ?thesis by simp
  next
    case False
    with "1.prems"(1) obtain seen' nl' where v: "visit G level nl seen [] = Inr (seen', nl')"
      and rec: "levels G seen' (Suc level) nl' = Inr sp"
      by (auto simp: levels.simps[of G seen level nl] split: sum.splits)
    from visit_shape[OF v] obtain new where n:
      "seen' = seen @ map (\<lambda>v. (v, level)) new" "set new \<subseteq> set nl"
      "set new \<inter> fst ` set seen = {}" "distinct new" "set new \<subseteq> set (nodes_of G)"
      "set nl' \<subseteq> (\<Union>v\<in>set new. nbrs_of G v)"
      by auto
    have newlb: "min_dist T src u \<le> level" if "u \<in> set new" for u
    proof -
      from that n(2) have u: "u \<in> set nl" by auto
      with "1.prems"(4) have par: "even level \<longleftrightarrow> ((u \<in> set T) = (src \<in> set T))" by blast
      show ?thesis
      proof (cases "level = 0")
        case True
        with "1.prems"(5) u have "u = src" by auto
        then show ?thesis by (simp add: min_dist_def)
      next
        case False
        with par show ?thesis by (auto simp: min_dist_def elim: evenE)
      qed
    qed
    have a: "\<forall>(v, k)\<in>set seen'. min_dist T src v \<le> k"
      using "1.prems"(3) newlb by (auto simp: n(1))
    have b: "\<forall>w\<in>set nl'. even (Suc level) \<longleftrightarrow> ((w \<in> set T) = (src \<in> set T))"
    proof
      fix w assume "w \<in> set nl'"
      with n(6) obtain u where u: "u \<in> set new" "w \<in> nbrs_of G u" by auto
      from u(1) n(2) "1.prems"(4) have "even level \<longleftrightarrow> ((u \<in> set T) = (src \<in> set T))" by blast
      with bipartite_nbrs[OF "1.prems"(2) u(2)] show "even (Suc level) \<longleftrightarrow> ((w \<in> set T) = (src \<in> set T))"
        by auto
    qed
    have c: "Suc level = 0 \<longrightarrow> set nl' \<subseteq> {src}" by simp
    have d: "distinct (map fst seen')"
      using "1.prems"(6) n(3,4) by (auto simp: n(1) comp_def distinct_map inj_on_def)
    have e: "fst ` set seen' \<subseteq> set (nodes_of G)"
      using "1.prems"(7) n(5) by (auto simp: n(1))
    from "1.IH"[OF False v refl rec "1.prems"(2) a b c d e] show ?thesis .
  qed
qed

text \<open>
  Hence the total distance from a node is at least the sum of the least distances, and
  when the search reaches every node that sum is \<open>m + 2(n-1)\<close> on the \<open>Top\<close> side and
  \<open>n + 2(m-1)\<close> on the \<open>Bottom\<close> side.
\<close>

lemma sssp_lower_bound:
  assumes "single_source_shortest_path_length G src = Inr sp" "bipartite G T"
  shows "\<forall>(v, k)\<in>set sp. min_dist T src v \<le> k"
    and "distinct (map fst sp)" and "fst ` set sp \<subseteq> set (nodes_of G)"
proof -
  have "(\<forall>(v, k)\<in>set sp. min_dist T src v \<le> k) \<and> distinct (map fst sp) \<and>
        fst ` set sp \<subseteq> set (nodes_of G)"
    using assms(1) unfolding single_source_shortest_path_length_def
    by (rule levels_inv[OF _ assms(2)]) simp_all
  then show "\<forall>(v, k)\<in>set sp. min_dist T src v \<le> k"
    and "distinct (map fst sp)" and "fst ` set sp \<subseteq> set (nodes_of G)"
    by simp_all
qed

lemma totsp_ge_min_dist:
  assumes "single_source_shortest_path_length G src = Inr sp" "bipartite G T"
  shows "(\<Sum>v\<in>fst ` set sp. min_dist T src v) \<le> sum_list (map snd sp)"
proof -
  note lb = sssp_lower_bound[OF assms]
  have "(\<Sum>v\<in>fst ` set sp. min_dist T src v) = sum_list (map (min_dist T src) (map fst sp))"
    using sum_list_distinct_conv_sum_set[OF lb(2), of "min_dist T src"] by simp
  also have "\<dots> = sum_list (map (\<lambda>e. min_dist T src (fst e)) sp)"
    by (simp add: comp_def)
  also have "\<dots> \<le> sum_list (map snd sp)"
    using lb(1) by (intro sum_list_mono) auto
  finally show ?thesis .
qed

lemma sum_two_but_one:
  assumes "finite S" "src \<in> S"
  shows "(\<Sum>v\<in>S. if v = src then 0 else (2::nat)) = 2 * (card S - 1)"
proof -
  have "(\<Sum>v\<in>S. if v = src then 0 else (2::nat)) =
        (if src = src then 0 else 2) + (\<Sum>v\<in>S - {src}. if v = src then 0 else (2::nat))"
    using assms by (rule sum.remove)
  also have "(\<Sum>v\<in>S - {src}. if v = src then 0 else (2::nat)) = (\<Sum>v\<in>S - {src}. 2)"
    by (intro sum.cong) auto
  finally show ?thesis using assms by simp
qed

lemma sum_min_dist:
  assumes "finite V" "src \<in> V"
  shows "(\<Sum>v\<in>V. min_dist T src v) =
     (if src \<in> set T then 2 * (card (V \<inter> set T) - 1) + card (V - set T)
      else 2 * (card (V - set T) - 1) + card (V \<inter> set T))"
proof -
  have split: "(\<Sum>v\<in>V. min_dist T src v) =
      (\<Sum>v\<in>V \<inter> set T. min_dist T src v) + (\<Sum>v\<in>V - set T. min_dist T src v)"
    using assms(1) by (subst sum.union_disjoint[symmetric]) (auto intro: arg_cong2[where f=sum])
  show ?thesis
  proof (cases "src \<in> set T")
    case True
    have "(\<Sum>v\<in>V \<inter> set T. min_dist T src v) = (\<Sum>v\<in>V \<inter> set T. if v = src then 0 else 2)"
      using True by (intro sum.cong) (auto simp: min_dist_def)
    also have "\<dots> = 2 * (card (V \<inter> set T) - 1)"
      using assms True by (intro sum_two_but_one) auto
    finally have 1: "(\<Sum>v\<in>V \<inter> set T. min_dist T src v) = 2 * (card (V \<inter> set T) - 1)" .
    have "(\<Sum>v\<in>V - set T. min_dist T src v) = (\<Sum>v\<in>V - set T. 1)"
      using True by (intro sum.cong) (auto simp: min_dist_def)
    then have 2: "(\<Sum>v\<in>V - set T. min_dist T src v) = card (V - set T)" by simp
    show ?thesis using True split 1 2 by simp
  next
    case False
    have "(\<Sum>v\<in>V - set T. min_dist T src v) = (\<Sum>v\<in>V - set T. if v = src then 0 else 2)"
      using False by (intro sum.cong) (auto simp: min_dist_def)
    also have "\<dots> = 2 * (card (V - set T) - 1)"
      using assms False by (intro sum_two_but_one) auto
    finally have 1: "(\<Sum>v\<in>V - set T. min_dist T src v) = 2 * (card (V - set T) - 1)" .
    have "(\<Sum>v\<in>V \<inter> set T. min_dist T src v) = (\<Sum>v\<in>V \<inter> set T. 1)"
      using False by (intro sum.cong) (auto simp: min_dist_def)
    then have 2: "(\<Sum>v\<in>V \<inter> set T. min_dist T src v) = card (V \<inter> set T)" by simp
    show ?thesis using False split 1 2 by simp
  qed
qed

lemma connected_keys:
  assumes "single_source_shortest_path_length G src = Inr sp" "bipartite G T"
    and "distinct (map fst G)" "length sp = length G"
  shows "fst ` set sp = set (nodes_of G)"
proof -
  note lb = sssp_lower_bound[OF assms(1,2)]
  have "card (fst ` set sp) = length sp"
    using distinct_card[OF lb(2)] by simp
  moreover have "card (set (nodes_of G)) = length G"
    using distinct_card[OF assms(3)] by (simp add: nodes_of_def)
  ultimately have "card (set (nodes_of G)) \<le> card (fst ` set sp)"
    using assms(4) by simp
  with lb(3) show ?thesis by (intro card_seteq) auto
qed

lemma connected_totsp:
  assumes sp: "single_source_shortest_path_length G src = Inr sp" and bip: "bipartite G T"
    and wf: "wf_graph G" and len: "length sp = length G" and src: "src \<in> set (nodes_of G)"
    and sub: "set T \<subseteq> set (nodes_of G)"
  shows "src \<in> set T \<Longrightarrow>
           2 * (card (set T) - 1) + card (set (nodes_of G) - set T) \<le> sum_list (map snd sp)"
    and "src \<notin> set T \<Longrightarrow>
           2 * (card (set (nodes_of G) - set T) - 1) + card (set T) \<le> sum_list (map snd sp)"
proof -
  from wf have d: "distinct (map fst G)" by (simp add: wf_graph_def)
  have keys: "fst ` set sp = set (nodes_of G)" by (rule connected_keys[OF sp bip d len])
  have int: "set (nodes_of G) \<inter> set T = set T" using sub by auto
  have le: "(\<Sum>v\<in>set (nodes_of G). min_dist T src v) \<le> sum_list (map snd sp)"
    using totsp_ge_min_dist[OF sp bip] by (simp only: keys)
  { assume "src \<in> set T"
    with le show "2 * (card (set T) - 1) + card (set (nodes_of G) - set T) \<le> sum_list (map snd sp)"
      by (simp add: sum_min_dist[OF _ src] int) }
  { assume "src \<notin> set T"
    with le show "2 * (card (set (nodes_of G) - set T) - 1) + card (set T) \<le> sum_list (map snd sp)"
      by (simp add: sum_min_dist[OF _ src] int) }
qed

lemma closeness_loop_values:
  assumes "closeness_loop G normalized numer n ns cl = Inr cl'"
    and "\<And>k x. cl k = Some x \<Longrightarrow> P x" and "P 0"
    and "\<And>node sp. node \<in> set ns \<Longrightarrow> single_source_shortest_path_length G node = Inr sp \<Longrightarrow>
           0 < sum_list (map snd sp) \<Longrightarrow> 1 < length G \<Longrightarrow>
           P (if normalized
              then numer / of_nat (sum_list (map snd sp)) *
                   ((of_nat (length sp) - 1) / (of_nat (length G) - 1))
              else numer / of_nat (sum_list (map snd sp)))"
  shows "cl' k = Some x \<Longrightarrow> P x"
  using assms
proof (induction ns arbitrary: cl)
  case Nil
  then show ?case by simp
next
  case (Cons node ns)
  from Cons.prems(2) obtain sp where sp: "single_source_shortest_path_length G node = Inr sp"
    by (auto split: sum.splits)
  let ?t = "sum_list (map snd sp)"
  let ?c = "if normalized
            then numer / of_nat ?t * ((of_nat (length sp) - 1) / (of_nat (length G) - 1))
            else numer / of_nat ?t"
  have unfold: "closeness_loop G normalized numer n (node # ns) cl =
      (if 0 < ?t \<and> 1 < length G
       then closeness_loop G normalized numer n ns (cl(node \<mapsto> ?c))
       else closeness_loop G normalized numer n ns (cl(Num n \<mapsto> 0)))"
    by (simp only: closeness_loop.simps sp sum.case Let_def)
  show ?case
  proof (cases "0 < ?t \<and> 1 < length G")
    case True
    from Cons.prems(2) have rec: "closeness_loop G normalized numer n ns (cl(node \<mapsto> ?c)) = Inr cl'"
      unfolding unfold by (simp only: if_P[OF True])
    have Pc: "P ?c" using Cons.prems(5)[OF _ sp] True by simp
    show ?thesis
    proof (rule Cons.IH[OF Cons.prems(1) rec])
      fix k x assume "(cl(node \<mapsto> ?c)) k = Some x"
      then show "P x" using Pc Cons.prems(3) by (cases "k = node") auto
    next
      show "P 0" by (rule Cons.prems(4))
    next
      fix node' sp' assume "node' \<in> set ns" "single_source_shortest_path_length G node' = Inr sp'"
        "0 < sum_list (map snd sp')" "1 < length G"
      then show "P (if normalized
              then numer / of_nat (sum_list (map snd sp')) *
                   ((of_nat (length sp') - 1) / (of_nat (length G) - 1))
              else numer / of_nat (sum_list (map snd sp')))"
        using Cons.prems(5)[of node' sp'] by simp
    qed
  next
    case False
    from Cons.prems(2) have rec: "closeness_loop G normalized numer n ns (cl(Num n \<mapsto> 0)) = Inr cl'"
      unfolding unfold by (simp only: if_not_P[OF False])
    show ?thesis
    proof (rule Cons.IH[OF Cons.prems(1) rec])
      fix k x assume "(cl(Num n \<mapsto> 0)) k = Some x"
      then show "P x" using Cons.prems(3,4) by (cases "k = Num n") auto
    next
      show "P 0" by (rule Cons.prems(4))
    next
      fix node' sp' assume "node' \<in> set ns" "single_source_shortest_path_length G node' = Inr sp'"
        "0 < sum_list (map snd sp')" "1 < length G"
      then show "P (if normalized
              then numer / of_nat (sum_list (map snd sp')) *
                   ((of_nat (length sp') - 1) / (of_nat (length G) - 1))
              else numer / of_nat (sum_list (map snd sp')))"
        using Cons.prems(5)[of node' sp'] by simp
    qed
  qed
qed

subsection \<open>Closeness centrality\<close>

lemma score_nonneg:
  fixes numer :: rat
  assumes "0 \<le> numer" "0 < (t::nat)" "1 \<le> (l::nat)" "1 < (g::nat)"
  shows "0 \<le> (if normalized then numer / of_nat t * ((of_nat l - 1) / (of_nat g - 1))
               else numer / of_nat t)"
proof -
  have a: "0 \<le> numer / of_nat t" using assms(1,2) by simp
  have "(0::rat) \<le> of_nat l - 1" using assms(3) by simp
  moreover have "(0::rat) < of_nat g - 1" using assms(4) by simp
  ultimately have b: "(0::rat) \<le> (of_nat l - 1) / (of_nat g - 1)" by simp
  from a b have "0 \<le> numer / of_nat t * ((of_nat l - 1) / (of_nat g - 1))"
    by (rule mult_nonneg_nonneg)
  with a show ?thesis by (simp only: split: if_split) simp
qed

lemma score_le_one:
  fixes numer :: rat
  assumes "0 \<le> numer" "numer \<le> of_nat t" "0 < (t::nat)" "l = g" "1 < (g::nat)"
  shows "(if normalized then numer / of_nat t * ((of_nat l - 1) / (of_nat g - 1))
          else numer / of_nat t) \<le> 1"
proof -
  have a: "numer / of_nat t \<le> 1" using assms(2,3) by (simp add: divide_le_eq_1)
  have "(of_nat g - 1 :: rat) \<noteq> 0" using assms(5) by simp
  then have b: "(of_nat l - 1) / (of_nat g - 1) = (1::rat)" using assms(4) by simp
  from a b show ?thesis by (simp only: mult_1_right if_cancel)
qed

lemma connected_length:
  assumes "connected G" "node \<in> set (nodes_of G)" "single_source_shortest_path_length G node = Inr sp"
  shows "length sp = length G"
  using assms by (auto simp: connected_def list_all_iff)

lemma numer_of_nat:
  "1 \<le> a \<Longrightarrow> (of_nat b + 2 * (of_nat a - 1) :: rat) = of_nat (2 * (a - 1) + b)"
  by (simp add: of_nat_diff)

text \<open>
  C3, as stated, fails: on the graph with the edge \<open>A - X\<close> and the isolated nodes \<open>B\<close>,
  \<open>C\<close> (valid partition \<open>Top = {A, B, C}\<close>, no edge inside a side), the normalised score
  of \<open>A\<close> is \<open>(1 + 2*2)/1 * (2-1)/(4-1) = 5/3\<close>.
\<close>

theorem closeness_above_one:
  "wf_graph ex_sparse \<and> bipartite ex_sparse [Obj ''A'', Obj ''B'', Obj ''C''] \<and>
   valid_partition ex_sparse [Obj ''A'', Obj ''B'', Obj ''C''] \<and>
   \<not> isl (bipartite_closeness_centrality ex_sparse [Obj ''A'', Obj ''B'', Obj ''C''] True) \<and>
   projr (bipartite_closeness_centrality ex_sparse [Obj ''A'', Obj ''B'', Obj ''C''] True) (Obj ''A'')
     = Some (5 / 3) \<and> (1::rat) < 5 / 3"
  by (simp add: closeness_eval ex_sparse_def wf_graph_def bipartite_def valid_partition_def)

text \<open>
  C3, amended. Every closeness score, normalised or not, is at least 0; and on a
  well-formed connected graph that satisfies the bipartite precondition, with a valid
  partition, every score is at most 1.
\<close>

theorem closeness_bounds:
  assumes r: "bipartite_closeness_centrality G nodes normalized = Inr c" and kx: "c k = Some x"
  shows "0 \<le> x \<and>
         (wf_graph G \<and> bipartite G nodes \<and> valid_partition G nodes \<and> connected G \<longrightarrow> x \<le> 1)"
proof -
  let ?top = "pyset nodes"
  let ?bottom = "filter (\<lambda>v. v \<notin> set (pyset nodes)) (pyset (nodes_of G))"
  let ?n = "card (set nodes)" and ?m = "card (set (nodes_of G) - set nodes)"
  let ?C = "wf_graph G \<and> bipartite G nodes \<and> valid_partition G nodes \<and> connected G"
  let ?P = "\<lambda>x::rat. 0 \<le> x \<and> (?C \<longrightarrow> x \<le> 1)"
  from r obtain c1 where
    l1: "closeness_loop G normalized (of_nat ?m + 2 * (of_nat ?n - 1)) (of_nat ?n) ?top Map.empty = Inr c1"
    and l2: "closeness_loop G normalized (of_nat ?n + 2 * (of_nat ?m - 1)) (of_nat ?n) ?bottom c1 = Inr c"
    unfolding bipartite_closeness_centrality_def Let_def length_pyset length_bottom
    by (auto split: sum.splits)
  let ?score = "\<lambda>(numer::rat) (sp::('a pyval \<times> nat) list).
      if normalized
      then numer / of_nat (sum_list (map snd sp)) *
           ((of_nat (length sp) - 1) / (of_nat (length G) - 1))
      else numer / of_nat (sum_list (map snd sp))"
  have top: "?P (?score (of_nat ?m + 2 * (of_nat ?n - 1)) sp)"
    if node: "node \<in> set ?top" and sp: "single_source_shortest_path_length G node = Inr sp"
      and t: "0 < sum_list (map snd sp)" and g: "1 < length G" for node sp
  proof -
    from node have nd: "node \<in> set nodes" by (simp add: set_pyset)
    then have n1: "1 \<le> ?n" by (auto simp: Suc_le_eq card_gt_0_iff)
    note nu = numer_of_nat[OF n1, of ?m]
    from t have l: "1 \<le> length sp" by (cases sp) auto
    have nonneg: "0 \<le> ?score (of_nat ?m + 2 * (of_nat ?n - 1)) sp"
      unfolding nu by (rule score_nonneg[OF _ t l g]) simp
    have "?score (of_nat ?m + 2 * (of_nat ?n - 1)) sp \<le> 1" if C: ?C
    proof -
      from C have sub: "set nodes \<subseteq> set (nodes_of G)" by (simp add: valid_partition_def)
      with nd have ng: "node \<in> set (nodes_of G)" by auto
      from C ng sp have len: "length sp = length G" by (auto intro: connected_length)
      from C have "2 * (?n - 1) + ?m \<le> sum_list (map snd sp)"
        using connected_totsp(1)[OF sp _ _ len ng sub nd] by simp
      then have "(of_nat (2 * (?n - 1) + ?m) :: rat) \<le> of_nat (sum_list (map snd sp))"
        by (simp only: of_nat_le_iff)
      then show ?thesis
        unfolding nu by (intro score_le_one[OF _ _ t len g]) simp_all
    qed
    with nonneg show ?thesis by blast
  qed
  have bot: "?P (?score (of_nat ?n + 2 * (of_nat ?m - 1)) sp)"
    if node: "node \<in> set ?bottom" and sp: "single_source_shortest_path_length G node = Inr sp"
      and t: "0 < sum_list (map snd sp)" and g: "1 < length G" for node sp
  proof -
    from node have nd: "node \<in> set (nodes_of G) - set nodes" by (simp only: set_bottom)
    then have m1: "1 \<le> ?m" by (auto simp: Suc_le_eq card_gt_0_iff)
    note nu = numer_of_nat[OF m1, of ?n]
    from t have l: "1 \<le> length sp" by (cases sp) auto
    have nonneg: "0 \<le> ?score (of_nat ?n + 2 * (of_nat ?m - 1)) sp"
      unfolding nu by (rule score_nonneg[OF _ t l g]) simp
    have "?score (of_nat ?n + 2 * (of_nat ?m - 1)) sp \<le> 1" if C: ?C
    proof -
      from C have sub: "set nodes \<subseteq> set (nodes_of G)" by (simp add: valid_partition_def)
      from nd have ng: "node \<in> set (nodes_of G)" and nt: "node \<notin> set nodes" by auto
      from C ng sp have len: "length sp = length G" by (auto intro: connected_length)
      from C have "2 * (?m - 1) + ?n \<le> sum_list (map snd sp)"
        using connected_totsp(2)[OF sp _ _ len ng sub nt] by simp
      then have "(of_nat (2 * (?m - 1) + ?n) :: rat) \<le> of_nat (sum_list (map snd sp))"
        by (simp only: of_nat_le_iff)
      then show ?thesis
        unfolding nu by (intro score_le_one[OF _ _ t len g]) simp_all
    qed
    with nonneg show ?thesis by blast
  qed
  have P1: "?P y" if "c1 j = Some y" for j y
  proof (rule closeness_loop_values[where P = ?P, OF l1 _ _ _ that])
    show "?P 0" by simp
  next
    fix k :: "'a pyval" and x :: rat
    assume "Map.empty k = Some x"
    then show "?P x" by simp
  next
    fix node sp
    assume "node \<in> set ?top" "single_source_shortest_path_length G node = Inr sp"
      "0 < sum_list (map snd sp)" "1 < length G"
    then show "?P (?score (of_nat ?m + 2 * (of_nat ?n - 1)) sp)" by (rule top)
  qed
  show ?thesis
  proof (rule closeness_loop_values[where P = ?P, OF l2 _ _ _ kx])
    show "?P 0" by simp
  next
    fix k x
    assume "c1 k = Some x"
    then show "?P x" by (rule P1)
  next
    fix node sp
    assume "node \<in> set ?bottom" "single_source_shortest_path_length G node = Inr sp"
      "0 < sum_list (map snd sp)" "1 < length G"
    then show "?P (?score (of_nat ?n + 2 * (of_nat ?m - 1)) sp)" by (rule bot)
  qed
qed

theorem closeness_bounds_path:
  "wf_graph ex_path \<and> bipartite ex_path [Obj ''A'', Obj ''B''] \<and>
   valid_partition ex_path [Obj ''A'', Obj ''B''] \<and> connected ex_path \<and>
   projr (bipartite_closeness_centrality ex_path [Obj ''A'', Obj ''B''] True) (Obj ''A'') = Some (2 / 3) \<and>
   (0::rat) \<le> 2 / 3 \<and> (2 / 3 :: rat) \<le> 1"
proof -
  let ?r = "bipartite_closeness_centrality ex_path [Obj ''A'', Obj ''B''] True"
  have w: "wf_graph ex_path"
    by (simp add: wf_graph_def ex_path_def)
  have b: "bipartite ex_path [Obj ''A'', Obj ''B'']"
    by (simp add: bipartite_def ex_path_def)
  have v: "valid_partition ex_path [Obj ''A'', Obj ''B'']"
    by (simp add: valid_partition_def ex_path_def nodes_of_def)
  have c: "connected ex_path"
    by (simp add: connected_def ex_path_def nodes_of_def single_source_shortest_path_length_def)
  have "\<not> isl ?r"
    by (simp add: closeness_eval ex_path_def)
  then have r: "?r = Inr (projr ?r)" by simp
  have k: "projr ?r (Obj ''A'') = Some (2 / 3)"
    by (simp add: closeness_eval ex_path_def)
  from closeness_bounds[OF r k] w b v c k show ?thesis by blast
qed

subsection \<open>The score of a node that does not take the fallback branch\<close>

text \<open>
  A loop leaves under every key other than \<open>n\<close> the score of that node, if the node is in
  the loop and does not take the fallback branch, and the previous entry otherwise.
  Hence the returned mapping holds the score of the formula for every node with a
  positive total distance whose key is not the fallback key \<open>n = float(len(top))\<close>.
\<close>

lemma closeness_loop_lookup:
  assumes "closeness_loop G normalized numer n ns cl = Inr cl'" "distinct ns" "k \<noteq> Num n"
  shows "cl' k = (if k \<in> set ns
                  then (case closeness_of G normalized numer k of Some c \<Rightarrow> Some c | None \<Rightarrow> cl k)
                  else cl k)"
  using assms
proof (induction ns arbitrary: cl)
  case Nil
  then show ?case by simp
next
  case (Cons node ns)
  from Cons.prems(1) obtain sp where sp: "single_source_shortest_path_length G node = Inr sp"
    by (auto split: sum.splits)
  let ?t = "sum_list (map snd sp)"
  let ?c = "if normalized
            then numer / of_nat ?t * ((of_nat (length sp) - 1) / (of_nat (length G) - 1))
            else numer / of_nat ?t"
  have unfold: "closeness_loop G normalized numer n (node # ns) cl =
      (if 0 < ?t \<and> 1 < length G
       then closeness_loop G normalized numer n ns (cl(node \<mapsto> ?c))
       else closeness_loop G normalized numer n ns (cl(Num n \<mapsto> 0)))"
    by (simp only: closeness_loop.simps sp sum.case Let_def)
  from Cons.prems(2) have d: "distinct ns" and nn: "node \<notin> set ns" by simp_all
  show ?case
  proof (cases "0 < ?t \<and> 1 < length G")
    case True
    from Cons.prems(1) have rec: "closeness_loop G normalized numer n ns (cl(node \<mapsto> ?c)) = Inr cl'"
      unfolding unfold by (simp only: if_P[OF True])
    have co: "closeness_of G normalized numer node = Some ?c"
      unfolding closeness_of_def sp sum.case by (simp only: if_P[OF True])
    show ?thesis
      unfolding Cons.IH[OF rec d Cons.prems(3)] using nn co
      by (auto split: option.splits)
  next
    case False
    from Cons.prems(1) have rec: "closeness_loop G normalized numer n ns (cl(Num n \<mapsto> 0)) = Inr cl'"
      unfolding unfold by (simp only: if_not_P[OF False])
    have co: "closeness_of G normalized numer node = None"
      unfolding closeness_of_def sp sum.case by (simp only: if_not_P[OF False])
    show ?thesis
      unfolding Cons.IH[OF rec d Cons.prems(3)] using nn co Cons.prems(3)
      by (auto split: option.splits)
  qed
qed

lemma closeness_formula:
  assumes r: "bipartite_closeness_centrality G nodes normalized = Inr c"
    and sp: "single_source_shortest_path_length G v = Inr sp"
    and pos: "0 < sum_list (map snd sp)" "1 < length G"
    and key: "v \<noteq> Num (of_nat (card (set nodes)))"
  shows "v \<in> set nodes \<Longrightarrow>
           c v = Some (if normalized
                       then (of_nat (card (set (nodes_of G) - set nodes)) + 2 * (of_nat (card (set nodes)) - 1))
                            / of_nat (sum_list (map snd sp)) *
                            ((of_nat (length sp) - 1) / (of_nat (length G) - 1))
                       else (of_nat (card (set (nodes_of G) - set nodes)) + 2 * (of_nat (card (set nodes)) - 1))
                            / of_nat (sum_list (map snd sp)))"
    and "v \<in> set (nodes_of G) - set nodes \<Longrightarrow>
           c v = Some (if normalized
                       then (of_nat (card (set nodes)) + 2 * (of_nat (card (set (nodes_of G) - set nodes)) - 1))
                            / of_nat (sum_list (map snd sp)) *
                            ((of_nat (length sp) - 1) / (of_nat (length G) - 1))
                       else (of_nat (card (set nodes)) + 2 * (of_nat (card (set (nodes_of G) - set nodes)) - 1))
                            / of_nat (sum_list (map snd sp)))"
proof -
  let ?top = "pyset nodes"
  let ?bottom = "filter (\<lambda>v. v \<notin> set (pyset nodes)) (pyset (nodes_of G))"
  let ?n = "card (set nodes)" and ?m = "card (set (nodes_of G) - set nodes)"
  from r obtain c1 where
    l1: "closeness_loop G normalized (of_nat ?m + 2 * (of_nat ?n - 1)) (of_nat ?n) ?top Map.empty = Inr c1"
    and l2: "closeness_loop G normalized (of_nat ?n + 2 * (of_nat ?m - 1)) (of_nat ?n) ?bottom c1 = Inr c"
    unfolding bipartite_closeness_centrality_def Let_def length_pyset length_bottom
    by (auto split: sum.splits)
  have dt: "distinct ?top" by (simp add: pyset_def)
  note k1 = closeness_loop_lookup[OF l1 dt key]
  note k2 = closeness_loop_lookup[OF l2 distinct_bottom key]
  have co: "closeness_of G normalized numer v =
      Some (if normalized
            then numer / of_nat (sum_list (map snd sp)) *
                 ((of_nat (length sp) - 1) / (of_nat (length G) - 1))
            else numer / of_nat (sum_list (map snd sp)))" for numer
    unfolding closeness_of_def sp sum.case using pos by (simp only: if_P simp_thms)
  { assume "v \<in> set nodes"
    then have "v \<in> set ?top" "v \<notin> set ?bottom" by (simp_all add: set_pyset)
    then show "c v = Some (if normalized
                       then (of_nat ?m + 2 * (of_nat ?n - 1))
                            / of_nat (sum_list (map snd sp)) *
                            ((of_nat (length sp) - 1) / (of_nat (length G) - 1))
                       else (of_nat ?m + 2 * (of_nat ?n - 1))
                            / of_nat (sum_list (map snd sp)))"
      unfolding k2 k1 co by simp }
  { assume "v \<in> set (nodes_of G) - set nodes"
    then have "v \<in> set ?bottom" by (simp only: set_bottom)
    then show "c v = Some (if normalized
                       then (of_nat ?n + 2 * (of_nat ?m - 1))
                            / of_nat (sum_list (map snd sp)) *
                            ((of_nat (length sp) - 1) / (of_nat (length G) - 1))
                       else (of_nat ?n + 2 * (of_nat ?m - 1))
                            / of_nat (sum_list (map snd sp)))"
      unfolding k2 co by simp }
qed

subsection \<open>The key of the fallback branch\<close>

text \<open>
  C1. The fallback branch stores \<open>0.0\<close> under the key \<open>n = float(len(top))\<close>, not under
  the node. On the graph with the edge \<open>a - x\<close> and the isolated node \<open>b\<close>, with
  \<open>Top = {a, b}\<close>, the result has no entry for \<open>b\<close> and an entry \<open>0.0\<close> for the key \<open>2.0\<close>.
\<close>

theorem closeness_fallback_key:
  "\<not> isl (bipartite_closeness_centrality ex_isolated [Obj ''a'', Obj ''b''] True) \<and>
   projr (bipartite_closeness_centrality ex_isolated [Obj ''a'', Obj ''b''] True) (Obj ''b'') = None \<and>
   projr (bipartite_closeness_centrality ex_isolated [Obj ''a'', Obj ''b''] True) (Num 2) = Some 0 \<and>
   projr (bipartite_closeness_centrality ex_isolated [Obj ''a'', Obj ''b''] True) (Obj ''a'') = Some (3 / 2) \<and>
   projr (bipartite_closeness_centrality ex_isolated [Obj ''a'', Obj ''b''] True) (Obj ''x'') = Some 1"
  by (simp add: closeness_eval ex_isolated_def)

text \<open>
  C5. When the nodes are numbers the fallback key can be a node's own key: on the
  graph with the edge \<open>2 - 1\<close> and the isolated node \<open>10\<close>, with \<open>Top = {2, 10}\<close>, node \<open>2\<close>
  has total distance 1 and the formula gives it \<open>(1 + 2*1)/1 * (2-1)/(3-1) = 3/2\<close>, but
  the fallback of node \<open>10\<close> then stores \<open>0.0\<close> under \<open>2.0\<close>, which is the key \<open>2\<close>.
\<close>

theorem closeness_score_overwritten:
  "single_source_shortest_path_length ex_numeric (Num 2) = Inr [(Num 2, 0), (Num 1, 1)] \<and>
   \<not> isl (bipartite_closeness_centrality ex_numeric [Num 2, Num 10] True) \<and>
   projr (bipartite_closeness_centrality ex_numeric [Num 2, Num 10] True) (Num 2) = Some 0"
  by (simp add: closeness_eval ex_numeric_def)

text \<open>
  C10. On the same graph the containers \<open>[2, 10]\<close> and \<open>[10, 2]\<close> hold the same set, and
  the results differ at the key \<open>2\<close>: the set built from \<open>[10, 2]\<close> is iterated with \<open>10\<close>
  first, so the fallback's entry under \<open>2.0\<close> is overwritten by the score of node \<open>2\<close>.
\<close>

theorem closeness_depends_on_order:
  "set [Num 2, Num 10 :: string pyval] = set [Num 10, Num 2] \<and>
   projr (bipartite_closeness_centrality ex_numeric [Num 2, Num 10] True) (Num 2) = Some 0 \<and>
   projr (bipartite_closeness_centrality ex_numeric [Num 10, Num 2] True) (Num 2) = Some (3 / 2)"
  by (auto simp add: closeness_eval ex_numeric_def)


subsection \<open>What the functions do with an invalid partition\<close>

text \<open>
  C2, as stated, fails: the module has no validation step. The closeness function never
  divides by the size of a side: on the path \<open>A - X - B - Y\<close> it returns a mapping for an
  empty \<open>Top\<close> and for a \<open>Top\<close> that holds every node (empty \<open>Bottom\<close>). The degree
  function passes over the members of \<open>Top\<close> that are not nodes: on \<open>K(2,3)\<close> with
  \<open>Top = {A, B, Q}\<close> it returns a mapping.
\<close>

theorem closeness_accepts_empty_top:
  "\<not> isl (bipartite_closeness_centrality ex_path [] True) \<and>
   projr (bipartite_closeness_centrality ex_path [] True) (Obj ''A'') = Some 1 \<and>
   \<not> isl (bipartite_closeness_centrality ex_path [Obj ''A'', Obj ''X'', Obj ''B'', Obj ''Y''] True) \<and>
   \<not> isl (bipartite_degree_centrality K23 [''A'', ''B'', ''Q''])"
  by (simp add: closeness_eval ex_path_def degree_centrality_eq K23_def)

text \<open>A search from a value that is not a node raises, and so does the closeness loop.\<close>

text \<open>A search from a value that is not a node raises, and so does the closeness loop.\<close>

lemma sssp_outside_fails:
  "v \<notin> set (nodes_of G) \<Longrightarrow> single_source_shortest_path_length G v = Inl KeyError"
proof -
  assume "v \<notin> set (nodes_of G)"
  then have "map_of G v = None"
    by (simp add: nodes_of_def map_of_eq_None_iff)
  then show ?thesis
    by (simp add: single_source_shortest_path_length_def levels.simps[of G "[]" 0 "[v]"])
qed

lemma closeness_loop_fails:
  "\<not> set ns \<subseteq> set (nodes_of G) \<Longrightarrow> isl (closeness_loop G normalized numer n ns cl)"
proof (induction ns arbitrary: cl)
  case Nil
  then show ?case by simp
next
  case (Cons node ns)
  show ?case
  proof (cases "node \<in> set (nodes_of G)")
    case False
    then show ?thesis by (simp add: sssp_outside_fails)
  next
    case True
    with Cons.prems have "\<not> set ns \<subseteq> set (nodes_of G)" by simp
    then have "isl (closeness_loop G normalized numer n ns cl')" for cl'
      by (rule Cons.IH)
    then show ?thesis
      by (simp add: Let_def split: sum.splits)
  qed
qed

lemma closeness_outside_fails:
  assumes "\<not> set nodes \<subseteq> set (nodes_of G)"
  shows "isl (bipartite_closeness_centrality G nodes normalized)"
proof -
  from assms have "\<not> set (pyset nodes) \<subseteq> set (nodes_of G)" by (simp add: set_pyset)
  then have "isl (closeness_loop G normalized numer n (pyset nodes) cl)" for numer n cl
    by (rule closeness_loop_fails)
  then have "\<exists>e. closeness_loop G normalized numer n (pyset nodes) cl = Inl e" for numer n cl
    by (simp add: isl_def)
  then show ?thesis
    unfolding bipartite_closeness_centrality_def Let_def
    by (metis sum.case(1) sum.disc(1))
qed

text \<open>
  On a well-formed graph a search from a node never raises: every node it reaches is a
  node whose neighbours can be read. So the closeness function returns a mapping whenever
  \<open>Top\<close> holds nodes only.
\<close>

lemma visit_succeeds:
  "set vs \<subseteq> set (nodes_of G) \<Longrightarrow> \<not> isl (visit G level vs seen nl)"
proof (induction vs arbitrary: seen nl)
  case Nil
  then show ?case by simp
next
  case (Cons a vs)
  from Cons.prems have "a \<in> fst ` set G" by (simp add: nodes_of_def)
  then obtain nbrs where "map_of G a = Some nbrs"
    by (metis map_of_eq_None_iff not_Some_eq)
  moreover from Cons.prems have "set vs \<subseteq> set (nodes_of G)" by simp
  then have "\<not> isl (visit G level vs seen' nl')" for seen' nl'
    by (rule Cons.IH)
  ultimately show ?case by simp
qed

lemma levels_succeeds:
  "wf_graph G \<Longrightarrow> set nl \<subseteq> set (nodes_of G) \<Longrightarrow> \<not> isl (levels G seen level nl)"
proof (induction G seen level nl rule: levels.induct)
  case (1 G seen level nl)
  show ?case
  proof (cases "nl = []")
    case True
    then show ?thesis by (simp add: levels.simps[of G seen level nl])
  next
    case False
    from visit_succeeds[OF "1.prems"(2), of level seen "[]"]
    obtain seen' nl' where v: "visit G level nl seen [] = Inr (seen', nl')"
      by (cases "visit G level nl seen []") auto
    from visit_shape[OF v] obtain new where
      n: "set nl' \<subseteq> set [] \<union> (\<Union>v\<in>set new. nbrs_of G v)"
      by blast
    have "nbrs_of G u \<subseteq> set (nodes_of G)" for u
      using wf_graph_entry(2)[OF "1.prems"(1)]
      by (auto simp: nbrs_of_def split: option.splits)
    with n have sub: "set nl' \<subseteq> set (nodes_of G)" by auto
    have "\<not> isl (levels G seen' (Suc level) nl')"
      by (rule "1.IH"[OF False v refl "1.prems"(1) sub])
    with False v show ?thesis
      by (simp add: levels.simps[of G seen level nl])
  qed
qed

lemma sssp_succeeds:
  "wf_graph G \<Longrightarrow> v \<in> set (nodes_of G) \<Longrightarrow> \<not> isl (single_source_shortest_path_length G v)"
  unfolding single_source_shortest_path_length_def by (rule levels_succeeds) simp_all

lemma closeness_loop_succeeds:
  "wf_graph G \<Longrightarrow> set ns \<subseteq> set (nodes_of G) \<Longrightarrow>
   \<not> isl (closeness_loop G normalized numer n ns cl)"
proof (induction ns arbitrary: cl)
  case Nil
  then show ?case by simp
next
  case (Cons node ns)
  from Cons.prems have "\<not> isl (single_source_shortest_path_length G node)"
    by (intro sssp_succeeds) simp_all
  then obtain sp where sp: "single_source_shortest_path_length G node = Inr sp"
    by (cases "single_source_shortest_path_length G node") auto
  from Cons.prems have "set ns \<subseteq> set (nodes_of G)" by simp
  then have "\<not> isl (closeness_loop G normalized numer n ns cl')" for cl'
    by (rule Cons.IH[OF Cons.prems(1)])
  then show ?case
    by (simp add: sp Let_def)
qed

lemma closeness_inside_succeeds:
  assumes "wf_graph G" "set nodes \<subseteq> set (nodes_of G)"
  shows "\<not> isl (bipartite_closeness_centrality G nodes normalized)"
proof -
  let ?bottom = "filter (\<lambda>v. v \<notin> set (pyset nodes)) (pyset (nodes_of G))"
  have t: "set (pyset nodes) \<subseteq> set (nodes_of G)" using assms(2) by (simp add: set_pyset)
  have b: "set ?bottom \<subseteq> set (nodes_of G)" unfolding set_bottom by blast
  let ?n = "of_nat (length (pyset nodes)) :: rat" and ?m = "of_nat (length ?bottom) :: rat"
  have "\<not> isl (closeness_loop G normalized (?m + 2 * (?n - 1)) ?n (pyset nodes) Map.empty)"
    by (rule closeness_loop_succeeds[OF assms(1) t])
  then obtain c1 where
    1: "closeness_loop G normalized (?m + 2 * (?n - 1)) ?n (pyset nodes) Map.empty = Inr c1"
    by (cases "closeness_loop G normalized (?m + 2 * (?n - 1)) ?n (pyset nodes) Map.empty") auto
  have 2: "\<not> isl (closeness_loop G normalized (?n + 2 * (?m - 1)) ?n ?bottom c1)"
    by (rule closeness_loop_succeeds[OF assms(1) b])
  show ?thesis
    unfolding bipartite_closeness_centrality_def Let_def 1 sum.case by (rule 2)
qed

text \<open>
  C2, amended.
  \<^item> The degree function fails exactly when \<open>Top\<close> is empty or \<open>Bottom\<close> is empty (no node of
    the graph lies outside \<open>Top\<close>), and then with \<open>ZeroDivisionError\<close> and no mapping; values
    of \<open>Top\<close> that are not nodes do not make it fail.
  \<^item> The betweenness function fails with \<open>ZeroDivisionError\<close> whenever \<open>Top\<close> is empty or
    \<open>Bottom\<close> is empty, and fails whenever \<open>Top\<close> holds a value that is not a node.
  \<^item> The closeness function fails whenever \<open>Top\<close> holds a value that is not a node; on a
    well-formed graph it fails in no other case, so neither on an empty \<open>Top\<close> nor on an
    empty \<open>Bottom\<close>.
\<close>

theorem partition_validation:
  fixes G :: "'k graph" and H :: "'a pyval graph"
  shows
  "(isl (bipartite_degree_centrality G nodes) \<longleftrightarrow>
      set nodes = {} \<or> set (nodes_of G) \<subseteq> set nodes) \<and>
   (set nodes = {} \<or> set (nodes_of G) \<subseteq> set nodes \<longrightarrow>
      bipartite_degree_centrality G nodes = Inl ZeroDivisionError \<and>
      bipartite_betweenness_centrality raw G nodes = Inl ZeroDivisionError) \<and>
   (\<not> set nodes \<subseteq> set (nodes_of G) \<longrightarrow>
      isl (bipartite_betweenness_centrality raw G nodes)) \<and>
   (\<not> set nodes' \<subseteq> set (nodes_of H) \<longrightarrow>
      isl (bipartite_closeness_centrality H nodes' normalized)) \<and>
   (wf_graph H \<and> set nodes' \<subseteq> set (nodes_of H) \<longrightarrow>
      \<not> isl (bipartite_closeness_centrality H nodes' normalized))"
proof -
  have e: "(card (set (nodes_of G) - set nodes) = 0 \<or> card (set nodes) = 0) \<longleftrightarrow>
           (set nodes = {} \<or> set (nodes_of G) \<subseteq> set nodes)"
    by auto
  have d: "bipartite_degree_centrality G nodes = Inl ZeroDivisionError"
    if "set nodes = {} \<or> set (nodes_of G) \<subseteq> set nodes"
    unfolding degree_centrality_eq using that e by (simp only: if_True)
  have d': "\<not> isl (bipartite_degree_centrality G nodes)"
    if "\<not> (set nodes = {} \<or> set (nodes_of G) \<subseteq> set nodes)"
    unfolding degree_centrality_eq using that e by (simp only: if_False sum.disc simp_thms)
  have b: "bipartite_betweenness_centrality raw G nodes = Inl ZeroDivisionError"
    if "set nodes = {} \<or> set (nodes_of G) \<subseteq> set nodes"
  proof -
    from that have "card (set (nodes_of G) - set nodes) = 0 \<or> card (set nodes) = 0"
      by (simp only: e)
    then have "card (set nodes) = 0 \<or> card (set (nodes_of G) - set nodes) = 0"
      by (rule disj_commute[THEN iffD1])
    then show ?thesis by (rule betweenness_empty_side)
  qed
  have 1: "isl (bipartite_degree_centrality G nodes) \<longleftrightarrow>
      set nodes = {} \<or> set (nodes_of G) \<subseteq> set nodes"
    using d d' by (metis sum.disc(1))
  show ?thesis
    using 1 d b betweenness_outside_fails[of nodes G raw]
      closeness_outside_fails[of nodes' H normalized]
      closeness_inside_succeeds[of H nodes' normalized]
    by blast
qed

theorem partition_validation_K23:
  "bipartite_degree_centrality K23 [] = Inl ZeroDivisionError \<and>
   bipartite_betweenness_centrality raw_path4 K23 [] = Inl ZeroDivisionError \<and>
   \<not> isl (bipartite_degree_centrality K23 [''A'', ''Q'']) \<and>
   isl (bipartite_betweenness_centrality raw_path4 K23 [''A'', ''Q'']) \<and>
   isl (bipartite_closeness_centrality ex_path [Obj ''Q''] True) \<and>
   wf_graph ex_path \<and>
   \<not> isl (bipartite_closeness_centrality ex_path [] True) \<and>
   \<not> isl (bipartite_closeness_centrality ex_path [Obj ''A'', Obj ''X'', Obj ''B'', Obj ''Y''] True)"
proof -
  have q: "\<not> set [''A'', ''Q''] \<subseteq> set (nodes_of K23)"
    "\<not> (set [''A'', ''Q''] = {} \<or> set (nodes_of K23) \<subseteq> set [''A'', ''Q''])"
    by (simp_all add: K23_def nodes_of_def)
  have p: "\<not> set [Obj ''Q''] \<subseteq> set (nodes_of ex_path)"
    "set [] \<subseteq> set (nodes_of ex_path)"
    "set [Obj ''A'', Obj ''X'', Obj ''B'', Obj ''Y''] \<subseteq> set (nodes_of ex_path)"
    by (simp_all add: ex_path_def nodes_of_def)
  have w: "wf_graph ex_path"
    by (simp add: wf_graph_def ex_path_def)
  from partition_validation[of K23 "[]" raw_path4 "[Obj ''Q'']" ex_path True]
    partition_validation[of K23 "[''A'', ''Q'']" raw_path4 "[]" ex_path True]
    partition_validation[of K23 "[''A'', ''Q'']" raw_path4
      "[Obj ''A'', Obj ''X'', Obj ''B'', Obj ''Y'']" ex_path True]
    q p w
  show ?thesis by simp
qed


end
